theory Spec2Isabelle
  imports Main "HOL-Library.Word"
begin

unbundle bit_operations_syntax

section \<open>Boot sequencer of the kernel: threads/init.c\<close>

text \<open>
  The file embeds the functions of \<^verbatim>\<open>src/threads/init.c\<close>: \<^verbatim>\<open>paging_init\<close>,
  \<^verbatim>\<open>read_command_line\<close>, \<^verbatim>\<open>parse_options\<close>, \<^verbatim>\<open>run_task\<close>, \<^verbatim>\<open>run_actions\<close>,
  \<^verbatim>\<open>power_off\<close> and \<^verbatim>\<open>main\<close>. A C array is a list, a pointer into it an index, and
  the null pointer is \<open>None\<close>. A kernel panic, a failed assertion, a power-off and an
  access outside an array are values of the type \<open>halt\<close>: a function that can stop the
  machine returns \<open>halt + 'a\<close>. What a run does outside these functions (console output,
  calls into the other subsystems of the kernel) is recorded, in order, as a list of
  \<open>event\<close>s.
\<close>

subsection \<open>Build configuration, globals, halts and events\<close>

text \<open>The preprocessor symbols \<^verbatim>\<open>USERPROG\<close>, \<^verbatim>\<open>FILESYS\<close> and \<^verbatim>\<open>VM\<close>.\<close>

record build =
  USERPROG :: bool
  FILESYS :: bool
  VM :: bool

type_synonym u32 = "32 word"
type_synonym u64 = "64 word"

text \<open>
  The globals that option parsing writes. \<^verbatim>\<open>format_filesys\<close>, \<^verbatim>\<open>power_off_when_done\<close>
  and \<^verbatim>\<open>thread_tests\<close> are defined in init.c; \<^verbatim>\<open>thread_mlfqs\<close> and
  \<^verbatim>\<open>user_page_limit\<close> belong to the thread and page-allocator modules;
  \<open>random_seed\<close> is the argument of the last call of \<^verbatim>\<open>random_init\<close>, if any.
\<close>

record globals =
  format_filesys :: bool
  power_off_when_done :: bool
  thread_tests :: bool
  thread_mlfqs :: bool
  user_page_limit :: u64
  random_seed :: "u32 option"

datatype halt =
    PANIC_command_line_overflow
  | PANIC_unknown_option string
  | PANIC_unknown_action string
  | PANIC_action_requires string int
  | PALLOC_ASSERT
  | ATOI_NULL
  | NULL_DEREF
  | TABLE_OVERRUN
  | OUT_OF_BOUNDS int
  | READ_PAST_END
  | POWER_OFF
  | THREAD_EXIT

text \<open>The functions an action of the table can name.\<close>

datatype handler = run_task_fn | fsutil_ls | fsutil_cat | fsutil_rm | fsutil_put | fsutil_get

text \<open>
  The events of a run. \<open>Printf fmt args\<close> keeps the format string and its string arguments
  apart; \<open>Fsutil h argv\<close> is a file-system action called on the slice of the argument array
  that starts at the action's name; \<open>Filesys_init f\<close> is \<^verbatim>\<open>filesys_init (f)\<close>; \<open>Call f\<close> is
  a call, by \<^verbatim>\<open>main\<close>, \<^verbatim>\<open>usage\<close> or \<^verbatim>\<open>power_off\<close>, of the function named \<open>f\<close>.
\<close>

datatype event =
    Printf string "string option list"
  | Run_test "string option"
  | Process_wait_create_initd "string option"
  | Fsutil handler "string option list"
  | Filesys_init bool
  | Call string

subsection \<open>Argument arrays\<close>

text \<open>
  \<^verbatim>\<open>char **argv\<close> is an array of strings closed by a null pointer, and a cursor into
  it. Reading or writing a slot outside an array is a halt of its own, which carries the
  index, so that no theorem rests on what HOL's \<open>!\<close> returns out of range.
\<close>

definition slot :: "'a list \<Rightarrow> int \<Rightarrow> halt + 'a" where
  "slot arr i = (if 0 \<le> i \<and> i < int (length arr) then Inr (arr ! nat i) else Inl (OUT_OF_BOUNDS i))"

definition store :: "'a list \<Rightarrow> int \<Rightarrow> 'a \<Rightarrow> halt + 'a list" where
  "store arr i v = (if 0 \<le> i \<and> i < int (length arr) then Inr (arr[nat i := v]) else Inl (OUT_OF_BOUNDS i))"

definition slice :: "string option list \<Rightarrow> int \<Rightarrow> string option list" where
  "slice arr i = drop (nat i) arr"

subsection \<open>paging\_init\<close>

text \<open>
  Modelled from the spec: threads/vaddr.h, threads/pte.h and threads/loader.h are not under
  src/. The spec speaks of the page size, of the present and the writable bit of an entry
  and of a fixed offset function \<^verbatim>\<open>ptov\<close>. \<open>PGSIZE\<close>, \<open>PTE_P\<close> and \<open>PTE_W\<close> have their values of
  the x86-64 architecture; the offset of \<^verbatim>\<open>ptov\<close> (\<^verbatim>\<open>LOADER_KERN_BASE\<close> in the comment of
  \<^verbatim>\<open>paging_init\<close>) and the linker symbols \<^verbatim>\<open>start\<close> and \<^verbatim>\<open>_end_kernel_text\<close> are parameters,
  the record \<open>layout\<close>. Addresses are 64-bit words: \<open>+\<close> wraps around and \<open><\<close> compares
  unsigned, as on \<^verbatim>\<open>uint64_t\<close>.
\<close>

definition PGSIZE :: u64 where
  "PGSIZE = 0x1000"

definition PTE_P :: u64 where
  "PTE_P = 0x1"

definition PTE_W :: u64 where
  "PTE_W = 0x2"

definition PTE_ADDR :: "u64 \<Rightarrow> u64" where
  "PTE_ADDR pte = pte AND NOT (PGSIZE - 1)"

record layout =
  kern_base :: u64
  start :: u64
  end_kernel_text :: u64

definition ptov :: "layout \<Rightarrow> u64 \<Rightarrow> u64" where
  "ptov L pa = pa + kern_base L"

text \<open>
  Modelled from the spec: the page allocator and the page-table module (threads/palloc.c,
  threads/mmu.c) are not under src/. The allocator is the number of pages it can still
  hand out. The page table under the top-level table is its set of intermediate tables,
  each named by its level (3, 2, 1 from the top) and by the bits of the virtual address
  that select it, and its leaf entries, by virtual page number; an entry of a zeroed table
  is 0. \<open>active\<close> says that \<^verbatim>\<open>pml4_activate\<close> has loaded the table.
\<close>

record mmu =
  free_pages :: nat
  tables :: "(nat \<times> u64) set"
  entries :: "u64 \<Rightarrow> u64"
  active :: bool

definition table_path :: "u64 \<Rightarrow> (nat \<times> u64) list" where
  "table_path va = [(3, drop_bit 39 va), (2, drop_bit 30 va), (1, drop_bit 21 va)]"

definition missing :: "mmu \<Rightarrow> u64 \<Rightarrow> (nat \<times> u64) list" where
  "missing s va = filter (\<lambda>t. t \<notin> tables s) (table_path va)"

text \<open>
  Modelled from the spec: \<^verbatim>\<open>pml4e_walk (pml4, va, create)\<close> returns a reference to the leaf
  entry for \<open>va\<close>, allocating and zeroing the intermediate tables that are missing when
  \<open>create\<close> is set; it returns no reference when a table is missing and \<open>create\<close> is not
  set, or when the allocator cannot provide the missing tables, and then the tables are as
  before the call.
\<close>

definition pml4e_walk :: "mmu \<Rightarrow> u64 \<Rightarrow> bool \<Rightarrow> u64 option \<times> mmu" where
  "pml4e_walk s va create =
     (let need = missing s va
      in if need = [] then (Some (drop_bit 12 va), s)
         else if create \<and> length need \<le> free_pages s
         then (Some (drop_bit 12 va),
               s\<lparr>free_pages := free_pages s - length need, tables := tables s \<union> set need\<rparr>)
         else (None, s))"

text \<open>The entry that the walk reaches for a virtual address in a finished table, if any.\<close>

definition pte_for :: "mmu \<Rightarrow> u64 \<Rightarrow> u64 option" where
  "pte_for s va = (case pml4e_walk s va False of (Some pte, _) \<Rightarrow> Some (entries s pte) | (None, _) \<Rightarrow> None)"

text \<open>
  \<^verbatim>\<open>perm = PTE_P | PTE_W; if (&start <= va && va < &_end_kernel_text) perm &= ~PTE_W;\<close>
\<close>

definition page_perm :: "layout \<Rightarrow> u64 \<Rightarrow> u64" where
  "page_perm L va =
     (if start L \<le> va \<and> va < end_kernel_text L then (PTE_P OR PTE_W) AND NOT PTE_W
      else PTE_P OR PTE_W)"

text \<open>
  \<^verbatim>\<open>for (uint64_t pa = 0; pa < mem_end; pa += PGSIZE)\<close>. When \<open>mem_end\<close> is within a page
  of \<open>2^64\<close> the addition wraps around to 0 and the loop never ends: the loop is a partial
  function, and \<open>None\<close> is that case.
\<close>

partial_function (option) paging_loop :: "layout \<Rightarrow> u64 \<Rightarrow> u64 \<Rightarrow> mmu \<Rightarrow> mmu option" where
  "paging_loop L mem_end pa s =
     (if pa < mem_end
      then (case pml4e_walk s (ptov L pa) True of
              (Some pte, s') \<Rightarrow>
                paging_loop L mem_end (pa + PGSIZE)
                  (s'\<lparr>entries := (entries s')(pte := pa OR page_perm L (ptov L pa))\<rparr>)
            | (None, s') \<Rightarrow> paging_loop L mem_end (pa + PGSIZE) s')
      else Some s)"

declare paging_loop.simps [code]

text \<open>
  \<^verbatim>\<open>paging_init\<close>, from the number of free pages of the allocator.
  \<^verbatim>\<open>palloc_get_page (PAL_ASSERT | PAL_ZERO)\<close> panics without a free page and else gives the
  zeroed top-level table; after the loop \<^verbatim>\<open>pml4_activate (0)\<close> loads it.
\<close>

definition paging_init :: "layout \<Rightarrow> nat \<Rightarrow> u64 \<Rightarrow> (halt + mmu) option" where
  "paging_init L free mem_end =
     (if free = 0 then Some (Inl PALLOC_ASSERT)
      else (case paging_loop L mem_end 0
                   \<lparr>free_pages = free - 1, tables = {}, entries = (\<lambda>_. 0), active = False\<rparr> of
              None \<Rightarrow> None
            | Some s \<Rightarrow> Some (Inr (s\<lparr>active := True\<rparr>))))"

text \<open>A physical address on a page boundary: its bits under the page size are zero.\<close>

definition aligned :: "u64 \<Rightarrow> bool" where
  "aligned p \<longleftrightarrow> p AND (PGSIZE - 1) = 0"

text \<open>
  The invariant of the loop of \<^verbatim>\<open>paging_init\<close> for one page: its tables are there and its
  entry is written, or the allocator cannot supply the tables that are missing for it.
\<close>

definition entry_inv :: "layout \<Rightarrow> mmu \<Rightarrow> u64 \<Rightarrow> bool" where
  "entry_inv L s q \<longleftrightarrow>
     (missing s (ptov L q) = [] \<and>
      entries s (drop_bit 12 (ptov L q)) = q OR page_perm L (ptov L q)) \<or>
     free_pages s < length (missing s (ptov L q))"

text \<open>
  The pages of the range \<open>[0, mem_end)\<close>, the intermediate tables that their virtual
  addresses need, and the books of the allocator: the tables of a state are needed ones,
  and they and the top-level table are the pages taken from the \<open>free\<close> pages given.
\<close>

definition range_pages :: "u64 \<Rightarrow> u64 list" where
  "range_pages mem_end = map (\<lambda>k. of_nat k * PGSIZE) [0 ..< (unat mem_end + 4095) div 4096]"

definition needed_tables :: "layout \<Rightarrow> u64 \<Rightarrow> (nat \<times> u64) set" where
  "needed_tables L mem_end = (\<Union>pa\<in>set (range_pages mem_end). set (table_path (ptov L pa)))"

definition accounted :: "nat \<Rightarrow> (nat \<times> u64) set \<Rightarrow> mmu \<Rightarrow> bool" where
  "accounted free N s \<longleftrightarrow> tables s \<subseteq> N \<and> free_pages s + card (tables s) + 1 = free"

subsection \<open>read\_command\_line\<close>

text \<open>
  The loader leaves the number of arguments in the 32-bit word at \<^verbatim>\<open>LOADER_ARG_CNT\<close> and
  the arguments, each closed by a zero byte, in the \<^verbatim>\<open>LOADER_ARGS_LEN\<close> bytes at
  \<^verbatim>\<open>LOADER_ARGS\<close>. The model takes the word and the bytes of that range as a list, whose
  length is \<^verbatim>\<open>LOADER_ARGS_LEN\<close> (threads/loader.h is not under src/); a pointer into the
  range is an offset, and \<^verbatim>\<open>end\<close> is the length.
\<close>

definition NUL :: char where
  "NUL = CHR 0x00"

text \<open>\<^verbatim>\<open>strnlen (s, maxlen)\<close>: the length of the string at \<open>s\<close>, reading at most \<open>maxlen\<close> bytes.\<close>

definition strnlen :: "char list \<Rightarrow> nat \<Rightarrow> nat" where
  "strnlen s maxlen = length (takeWhile (\<lambda>c. c \<noteq> NUL) (take maxlen s))"

text \<open>
  The string at the offset \<open>p\<close>, as \<^verbatim>\<open>strchr\<close> and \<^verbatim>\<open>printf\<close> read it: up to its zero byte.
  Without a zero byte in the range the read runs past the end of the range.
\<close>

definition cstring :: "char list \<Rightarrow> nat \<Rightarrow> halt + string" where
  "cstring mem p =
     (if NUL \<in> set (drop p mem) then Inr (takeWhile (\<lambda>c. c \<noteq> NUL) (drop p mem))
      else Inl READ_PAST_END)"

text \<open>
  \<^verbatim>\<open>for (i = 0; i < argc; i++)\<close> with the panic, the store \<^verbatim>\<open>argv[i] = p\<close> and the step
  over the token.
\<close>

function read_loop :: "char list \<Rightarrow> int \<Rightarrow> int \<Rightarrow> nat \<Rightarrow> nat option list \<Rightarrow> halt + nat option list" where
  "read_loop mem argc i p argv =
     (if i < argc
      then (if length mem \<le> p then Inl PANIC_command_line_overflow
            else (case store argv i (Some p) of
                    Inl h \<Rightarrow> Inl h
                  | Inr argv' \<Rightarrow>
                      read_loop mem argc (i + 1)
                        (p + strnlen (drop p mem) (length mem - p) + 1) argv'))
      else Inr argv)"
  by pat_completeness auto
termination
  by (relation "measure (\<lambda>(mem, argc, i, p, argv). nat (argc - i))") auto

declare read_loop.simps [simp del]

text \<open>The loop that prints the arguments, one \<^verbatim>\<open>printf\<close> each, quoted when \<^verbatim>\<open>strchr\<close> finds a space.\<close>

function echo :: "char list \<Rightarrow> nat option list \<Rightarrow> int \<Rightarrow> int \<Rightarrow> halt + event list" where
  "echo mem argv argc i =
     (if i < argc
      then (case slot argv i of
              Inl h \<Rightarrow> Inl h
            | Inr None \<Rightarrow> Inl NULL_DEREF
            | Inr (Some p) \<Rightarrow>
                (case cstring mem p of
                   Inl h \<Rightarrow> Inl h
                 | Inr s \<Rightarrow>
                     (case echo mem argv argc (i + 1) of
                        Inl h \<Rightarrow> Inl h
                      | Inr evs \<Rightarrow>
                          Inr ((if CHR '' '' \<in> set s then Printf ('' '%s'' @ [CHR 0x27]) [Some s]
                                else Printf '' %s'' [Some s]) # evs))))
      else Inr [])"
  by pat_completeness auto
termination
  by (relation "measure (\<lambda>(mem, argv, argc, i). nat (argc - i))") auto

declare echo.simps [simp del]

text \<open>
  \<^verbatim>\<open>read_command_line\<close>: \<^verbatim>\<open>argv\<close> is static, so it starts as \<^verbatim>\<open>LOADER_ARGS_LEN / 2 + 1\<close>
  null pointers; \<^verbatim>\<open>argc\<close> is the word read as an \<^verbatim>\<open>int\<close>. The result is the array of
  pointers and what was printed.
\<close>

definition read_command_line :: "u32 \<Rightarrow> char list \<Rightarrow> halt + (nat option list \<times> event list)" where
  "read_command_line cnt mem =
     (let argc = sint cnt in
      case read_loop mem argc 0 0 (replicate (length mem div 2 + 1) None) of
        Inl h \<Rightarrow> Inl h
      | Inr argv1 \<Rightarrow>
          (case store argv1 argc None of
             Inl h \<Rightarrow> Inl h
           | Inr argv \<Rightarrow>
               (case echo mem argv argc 0 of
                  Inl h \<Rightarrow> Inl h
                | Inr evs \<Rightarrow>
                    Inr (argv, [Printf ''Kernel command line:'' []] @ evs @ [Printf ''\<newline>'' []]))))"

text \<open>The array of pointers as the array of strings that the later stages read.\<close>

definition argv_strings :: "char list \<Rightarrow> nat option list \<Rightarrow> string option list" where
  "argv_strings mem argv = map (map_option (\<lambda>p. takeWhile (\<lambda>c. c \<noteq> NUL) (drop p mem))) argv"

subsection \<open>parse\_options\<close>

text \<open>
  Modelled from the spec: \<^verbatim>\<open>strtok_r\<close> (lib/string.c) is not under src/. The spec has a
  token split at the first \<open>=\<close> into a name and an optional value; the model is the C
  library's contract, which \<^verbatim>\<open>parse_options\<close> relies on for that. \<open>strtok_r s d\<close> skips the
  leading characters of \<open>s\<close> that are in \<open>d\<close>; with nothing left there is no token. The
  token runs up to the next character in \<open>d\<close>, which is overwritten with the string's
  end, and the saved pointer is the text after it. The result is the token, the saved
  pointer and the string that the overwrite leaves at the address of \<open>s\<close>.
\<close>

definition strtok_r :: "string \<Rightarrow> string \<Rightarrow> string option \<times> string \<times> string" where
  "strtok_r s delimiters =
     (let lead = takeWhile (\<lambda>c. c \<in> set delimiters) s;
          s1 = dropWhile (\<lambda>c. c \<in> set delimiters) s
      in if s1 = [] then (None, [], s)
         else (let token = takeWhile (\<lambda>c. c \<notin> set delimiters) s1;
                   rest = dropWhile (\<lambda>c. c \<notin> set delimiters) s1
               in if rest = [] then (Some token, [], s)
                  else (Some token, tl rest, lead @ token)))"

text \<open>
  Modelled from the spec: \<^verbatim>\<open>atoi\<close> (lib/stdlib.c) is not under src/. The spec calls it a
  best-effort numeric conversion in which a non-numeric input yields zero; the model is
  the C library's contract: white space is skipped, a sign is read, and the decimal digits
  that follow are the value, an \<^verbatim>\<open>int\<close> of 32 bits (the arithmetic of the model wraps
  around). The contract has no result for a null pointer: \<open>atoi None\<close> is the halt
  \<open>ATOI_NULL\<close>.
\<close>

definition isspace :: "char \<Rightarrow> bool" where
  "isspace c \<longleftrightarrow> c \<in> set [CHR '' '', CHR 0x0C, CHR 0x0A, CHR 0x0D, CHR 0x09, CHR 0x0B]"

definition isdigit :: "char \<Rightarrow> bool" where
  "isdigit c \<longleftrightarrow> (48::nat) \<le> of_char c \<and> (of_char c :: nat) \<le> 57"

fun digits :: "u32 \<Rightarrow> string \<Rightarrow> u32" where
  "digits v [] = v"
| "digits v (c # cs) = (if isdigit c then digits (v * 10 + (of_char c - 48)) cs else v)"

definition atoi :: "string option \<Rightarrow> halt + u32" where
  "atoi s =
     (case s of
        None \<Rightarrow> Inl ATOI_NULL
      | Some str \<Rightarrow>
          (case dropWhile isspace str of
             [] \<Rightarrow> Inr 0
           | c # cs \<Rightarrow>
               if c = CHR ''+'' then Inr (digits 0 cs)
               else if c = CHR ''-'' then Inr (- digits 0 cs)
               else Inr (digits 0 (c # cs))))"

text \<open>
  The body of the loop of \<^verbatim>\<open>parse_options\<close> on one token: the two calls of
  \<^verbatim>\<open>strtok_r\<close>, then the chain of \<^verbatim>\<open>strcmp\<close>. The branches under \<^verbatim>\<open>#ifdef\<close> exist
  when the build has the symbol. \<^verbatim>\<open>usage\<close> prints the help text and calls
  \<^verbatim>\<open>power_off\<close>, which does not return. \<^verbatim>\<open>random_init\<close> takes the \<^verbatim>\<open>int\<close> of \<^verbatim>\<open>atoi\<close>
  as an \<^verbatim>\<open>unsigned\<close>; \<^verbatim>\<open>user_page_limit\<close> is a \<^verbatim>\<open>size_t\<close>, so the \<^verbatim>\<open>int\<close> is sign-extended.
  The result is the globals and the string left in the token's place.
\<close>

definition parse_option :: "build \<Rightarrow> globals \<Rightarrow> string \<Rightarrow> halt + (globals \<times> string)" where
  "parse_option b g tok =
     (case strtok_r tok ''='' of
        (name, save_ptr, tok') \<Rightarrow>
          (case strtok_r save_ptr [] of
             (value, _, _) \<Rightarrow>
               (case name of
                  None \<Rightarrow> Inl NULL_DEREF
                | Some opt \<Rightarrow>
                    if opt = ''-h'' then Inl POWER_OFF
                    else if opt = ''-q'' then Inr (g\<lparr>power_off_when_done := True\<rparr>, tok')
                    else if FILESYS b \<and> opt = ''-f'' then Inr (g\<lparr>format_filesys := True\<rparr>, tok')
                    else if opt = ''-rs''
                    then (case atoi value of
                            Inl h \<Rightarrow> Inl h
                          | Inr n \<Rightarrow> Inr (g\<lparr>random_seed := Some n\<rparr>, tok'))
                    else if opt = ''-mlfqs'' then Inr (g\<lparr>thread_mlfqs := True\<rparr>, tok')
                    else if USERPROG b \<and> opt = ''-ul''
                    then (case atoi value of
                            Inl h \<Rightarrow> Inl h
                          | Inr n \<Rightarrow> Inr (g\<lparr>user_page_limit := scast n\<rparr>, tok'))
                    else if USERPROG b \<and> opt = ''-threads-tests''
                    then Inr (g\<lparr>thread_tests := True\<rparr>, tok')
                    else Inl (PANIC_unknown_option opt))))"

text \<open>
  \<^verbatim>\<open>for (; *argv != NULL && **argv == '-'; argv++)\<close>. The result is the globals, the
  array (the tokens that were options now end at their \<open>=\<close>) and the cursor at the first
  token that is not an option.
\<close>

function parse_options :: "build \<Rightarrow> globals \<Rightarrow> string option list \<Rightarrow> int
     \<Rightarrow> halt + (globals \<times> string option list \<times> int)" where
  "parse_options b g arr argv =
     (case slot arr argv of
        Inl h \<Rightarrow> Inl h
      | Inr None \<Rightarrow> Inr (g, arr, argv)
      | Inr (Some tok) \<Rightarrow>
          if take 1 tok = ''-''
          then (case parse_option b g tok of
                  Inl h \<Rightarrow> Inl h
                | Inr (g', tok') \<Rightarrow> parse_options b g' (arr[nat argv := Some tok']) (argv + 1))
          else Inr (g, arr, argv))"
  by pat_completeness auto
termination
  by (relation "measure (\<lambda>(b, g, arr, argv). nat (int (length arr) - argv))")
     (auto simp: slot_def split: if_splits)

declare parse_options.simps [simp del]

text \<open>
  The options of the spec's list of recognized options that a build knows, and those of
  them that take an integer.
\<close>

definition option_names :: "build \<Rightarrow> string list" where
  "option_names b =
     [''-h'', ''-q''] @ (if FILESYS b then [''-f''] else []) @ [''-rs'', ''-mlfqs''] @
     (if USERPROG b then [''-ul'', ''-threads-tests''] else [])"

definition integer_options :: "build \<Rightarrow> string list" where
  "integer_options b = [''-rs''] @ (if USERPROG b then [''-ul''] else [])"

subsection \<open>run\_task and run\_actions\<close>

text \<open>
  \<^verbatim>\<open>run_task\<close> reads \<^verbatim>\<open>argv[1]\<close>, announces it, runs it as a test or as a user
  process, and announces the end.
\<close>

definition run_task :: "build \<Rightarrow> globals \<Rightarrow> string option list \<Rightarrow> int \<Rightarrow> halt + event list" where
  "run_task b g arr argv =
     (case slot arr (argv + 1) of
        Inl h \<Rightarrow> Inl h
      | Inr task \<Rightarrow>
          Inr ([Printf ''Executing '%s':\<newline>'' [task]] @
               (if USERPROG b
                then (if thread_tests g then [Run_test task] else [Process_wait_create_initd task])
                else [Run_test task]) @
               [Printf ''Execution of '%s' complete.\<newline>'' [task]]))"

text \<open>\<^verbatim>\<open>struct action\<close>; the last entry of a table has a null name.\<close>

record action =
  name :: "string option"
  argc :: int
  func :: "handler option"

definition actions :: "build \<Rightarrow> action list" where
  "actions b =
     [\<lparr>name = Some ''run'', argc = 2, func = Some run_task_fn\<rparr>] @
     (if FILESYS b
      then [\<lparr>name = Some ''ls'', argc = 1, func = Some fsutil_ls\<rparr>,
            \<lparr>name = Some ''cat'', argc = 2, func = Some fsutil_cat\<rparr>,
            \<lparr>name = Some ''rm'', argc = 2, func = Some fsutil_rm\<rparr>,
            \<lparr>name = Some ''put'', argc = 2, func = Some fsutil_put\<rparr>,
            \<lparr>name = Some ''get'', argc = 2, func = Some fsutil_get\<rparr>]
      else []) @
     [\<lparr>name = None, argc = 0, func = None\<rparr>]"

text \<open>
  The search \<^verbatim>\<open>for (a = actions;; a++)\<close>: the entry with the null name ends it with a
  panic; a table without that entry would be read past its end.
\<close>

fun find_action :: "action list \<Rightarrow> string \<Rightarrow> halt + action" where
  "find_action [] tok = Inl TABLE_OVERRUN"
| "find_action (a # as) tok =
     (case name a of
        None \<Rightarrow> Inl (PANIC_unknown_action tok)
      | Some n \<Rightarrow> if tok = n then Inr a else find_action as tok)"

text \<open>
  The check \<^verbatim>\<open>for (i = 1; i < a->argc; i++) if (argv[i] == NULL) PANIC (...)\<close>; the
  panic prints \<^verbatim>\<open>a->argc - 1\<close>.
\<close>

function check_args :: "string option list \<Rightarrow> int \<Rightarrow> string \<Rightarrow> int \<Rightarrow> int \<Rightarrow> halt + unit" where
  "check_args arr argv tok n i =
     (if i < n
      then (case slot arr (argv + i) of
              Inl h \<Rightarrow> Inl h
            | Inr None \<Rightarrow> Inl (PANIC_action_requires tok (n - 1))
            | Inr (Some _) \<Rightarrow> check_args arr argv tok n (i + 1))
      else Inr ())"
  by pat_completeness auto
termination
  by (relation "measure (\<lambda>(arr, argv, tok, n, i). nat (n - i))") auto

text \<open>\<^verbatim>\<open>a->function (argv)\<close>, by the function the entry names.\<close>

definition invoke :: "build \<Rightarrow> globals \<Rightarrow> handler option \<Rightarrow> string option list \<Rightarrow> int \<Rightarrow> halt + event list" where
  "invoke b g f arr argv =
     (case f of
        None \<Rightarrow> Inl NULL_DEREF
      | Some run_task_fn \<Rightarrow> run_task b g arr argv
      | Some h \<Rightarrow> Inr [Fsutil h (slice arr argv)])"

text \<open>
  The loop \<^verbatim>\<open>while (*argv != NULL)\<close> of \<^verbatim>\<open>run_actions\<close>, over any table. The result
  is the list of events so far and, when the loop stopped the machine, the halt. The loop
  is not recursive on any structure (the cursor moves by \<^verbatim>\<open>a->argc\<close>, which a table may
  declare as 0), so the function is partial: \<open>None\<close> is a loop that never ends.
\<close>

partial_function (option) run_actions_loop ::
  "build \<Rightarrow> globals \<Rightarrow> action list \<Rightarrow> string option list \<Rightarrow> int \<Rightarrow> event list
     \<Rightarrow> (halt option \<times> int \<times> event list) option" where
  "run_actions_loop b g tbl arr argv tr =
     (case slot arr argv of
        Inl h \<Rightarrow> Some (Some h, argv, tr)
      | Inr None \<Rightarrow> Some (None, argv, tr)
      | Inr (Some tok) \<Rightarrow>
          (case find_action tbl tok of
             Inl h \<Rightarrow> Some (Some h, argv, tr)
           | Inr a \<Rightarrow>
               (case check_args arr argv tok (argc a) 1 of
                  Inl h \<Rightarrow> Some (Some h, argv, tr)
                | Inr _ \<Rightarrow>
                    (case invoke b g (func a) arr argv of
                       Inl h \<Rightarrow> Some (Some h, argv, tr)
                     | Inr evs \<Rightarrow> run_actions_loop b g tbl arr (argv + argc a) (tr @ evs)))))"

declare run_actions_loop.simps [code]

definition run_actions :: "build \<Rightarrow> globals \<Rightarrow> string option list \<Rightarrow> int
     \<Rightarrow> (halt option \<times> int \<times> event list) option" where
  "run_actions b g arr argv = run_actions_loop b g (actions b) arr argv []"

text \<open>
  What the proofs need of a table: it ends in the entry with the null name, and every named
  entry counts its own name (\<open>argc\<close> at least 1), has a function, and has an argument when
  the function is \<^verbatim>\<open>run_task\<close>, which reads \<^verbatim>\<open>argv[1]\<close>.
\<close>

definition table_ok :: "action list \<Rightarrow> bool" where
  "table_ok tbl \<longleftrightarrow>
     (\<exists>a\<in>set tbl. name a = None) \<and>
     (\<forall>a\<in>set tbl. name a \<noteq> None \<longrightarrow>
        1 \<le> argc a \<and> func a \<noteq> None \<and> (func a = Some run_task_fn \<longrightarrow> 2 \<le> argc a))"

text \<open>Globals with every flag clear and no seed, for the examples.\<close>

definition boot_globals :: globals where
  "boot_globals =
     \<lparr>format_filesys = False, power_off_when_done = False, thread_tests = False,
      thread_mlfqs = False, user_page_limit = 0, random_seed = None\<rparr>"

subsection \<open>power\_off and main\<close>

text \<open>
  \<^verbatim>\<open>power_off\<close> with \<^verbatim>\<open>print_stats\<close>: the calls it makes before it spins for ever.
\<close>

definition print_stats :: "build \<Rightarrow> event list" where
  "print_stats b =
     [Call ''timer_print_stats'', Call ''thread_print_stats''] @
     (if FILESYS b then [Call ''disk_print_stats''] else []) @
     [Call ''console_print_stats'', Call ''kbd_print_stats''] @
     (if USERPROG b then [Call ''exception_print_stats''] else [])"

definition power_off :: "build \<Rightarrow> event list" where
  "power_off b =
     (if FILESYS b then [Call ''filesys_done''] else []) @ print_stats b @
     [Printf ''Powering off...\<newline>'' [], Call ''outw'']"

text \<open>
  \<^verbatim>\<open>usage\<close>: one \<^verbatim>\<open>printf\<close> of the help text, whose lines depend on the build, then
  \<^verbatim>\<open>power_off\<close>, which does not return.
\<close>

definition usage_text :: "build \<Rightarrow> string" where
  "usage_text b =
     ''\<newline>Command line syntax: [OPTION...] [ACTION...]\<newline>'' @
     ''Options must precede actions.\<newline>'' @
     ''Actions are executed in the order specified.\<newline>'' @
     ''\<newline>Available actions:\<newline>'' @
     (if USERPROG b
      then ''  run 'PROG [ARG...]' Run PROG and wait for it to complete.\<newline>''
      else ''  run TEST           Run TEST.\<newline>'') @
     (if FILESYS b
      then ''  ls                 List files in the root directory.\<newline>'' @
           ''  cat FILE           Print FILE to the console.\<newline>'' @
           ''  rm FILE            Delete FILE.\<newline>'' @
           ''Use these actions indirectly via `pintos' -g and -p options:\<newline>'' @
           ''  put FILE           Put FILE into file system from scratch disk.\<newline>'' @
           ''  get FILE           Get FILE from file system into scratch disk.\<newline>''
      else []) @
     ''\<newline>Options:\<newline>'' @
     ''  -h                 Print this help message and power off.\<newline>'' @
     ''  -q                 Power off VM after actions or on panic.\<newline>'' @
     ''  -f                 Format file system disk during startup.\<newline>'' @
     ''  -rs=SEED           Set random number seed to SEED.\<newline>'' @
     ''  -mlfqs             Use multi-level feedback queue scheduler.\<newline>'' @
     (if USERPROG b
      then ''  -ul=COUNT          Limit user memory to COUNT pages.\<newline>''
      else [])"

definition usage :: "build \<Rightarrow> event list" where
  "usage b = [Printf (usage_text b) [], Call ''power_off''] @ power_off b"

text \<open>
  What a halt of \<^verbatim>\<open>parse_options\<close> has done before the machine stops: the halt
  \<open>POWER_OFF\<close> comes from the option \<open>-h\<close> alone, which runs \<^verbatim>\<open>usage\<close>.
\<close>

definition parse_options_halt :: "build \<Rightarrow> halt \<Rightarrow> event list" where
  "parse_options_halt b h = (if h = POWER_OFF then usage b else [])"

text \<open>
  What \<^verbatim>\<open>main\<close> finds: the word and the bytes the loader left, the values that
  \<^verbatim>\<open>thread_mlfqs\<close> and \<^verbatim>\<open>user_page_limit\<close> have in their modules, what \<^verbatim>\<open>palloc_init\<close>
  returns and leaves free, and the layout of the kernel.
\<close>

record boot =
  boot_arg_cnt :: u32
  boot_args :: "char list"
  boot_externals :: globals
  boot_mem_end :: u64
  boot_free_pages :: nat
  boot_layout :: layout

text \<open>
  The stages of \<^verbatim>\<open>main\<close> between its calls of \<^verbatim>\<open>parse_options\<close>, \<^verbatim>\<open>paging_init\<close> and
  \<^verbatim>\<open>run_actions\<close>, in the order of the source; a call of \<^verbatim>\<open>main\<close> is recorded as
  \<open>Call\<close> with the name of the function, and \<^verbatim>\<open>filesys_init\<close> with its argument.
\<close>

definition init_threads_and_memory :: "event list" where
  "init_threads_and_memory =
     [Call ''thread_init'', Call ''console_init'', Call ''palloc_init'', Call ''malloc_init'',
      Call ''paging_init'']"

definition init_interrupts_and_devices :: "build \<Rightarrow> globals \<Rightarrow> event list" where
  "init_interrupts_and_devices b g =
     (if USERPROG b then [Call ''tss_init'', Call ''gdt_init''] else []) @
     [Call ''intr_init'', Call ''timer_init'', Call ''kbd_init'', Call ''input_init''] @
     (if USERPROG b then [Call ''exception_init'', Call ''syscall_init''] else []) @
     [Call ''thread_start'', Call ''serial_init_queue'', Call ''timer_calibrate''] @
     (if FILESYS b then [Call ''disk_init'', Filesys_init (format_filesys g)] else []) @
     (if VM b then [Call ''vm_init''] else []) @
     [Printf ''Boot complete.\<newline>'' []]"

text \<open>
  \<^verbatim>\<open>main\<close> does not return: the result is the calls made and the halt that ended them, or
  \<open>None\<close> when a loop never ends. \<^verbatim>\<open>bss_init\<close> clears the flags that init.c defines. When
  \<^verbatim>\<open>parse_options\<close> stops at \<open>-h\<close>, the events of \<^verbatim>\<open>usage\<close> and \<^verbatim>\<open>power_off\<close> end the run.
\<close>

definition main :: "build \<Rightarrow> boot \<Rightarrow> (event list \<times> halt) option" where
  "main b m =
     (case read_command_line (boot_arg_cnt m) (boot_args m) of
        Inl h \<Rightarrow> Some ([Call ''bss_init'', Call ''read_command_line''], h)
      | Inr (argv, out) \<Rightarrow>
          (case parse_options b
                  ((boot_externals m)\<lparr>format_filesys := False, power_off_when_done := False,
                                       thread_tests := False\<rparr>)
                  (argv_strings (boot_args m) argv) 0 of
             Inl h \<Rightarrow>
               Some ([Call ''bss_init'', Call ''read_command_line''] @ out @
                     [Call ''parse_options''] @ parse_options_halt b h, h)
           | Inr (g, arr, argv') \<Rightarrow>
               (case paging_init (boot_layout m) (boot_free_pages m) (boot_mem_end m) of
                  None \<Rightarrow> None
                | Some (Inl h) \<Rightarrow>
                    Some ([Call ''bss_init'', Call ''read_command_line''] @ out @
                          [Call ''parse_options''] @ init_threads_and_memory, h)
                | Some (Inr pml4) \<Rightarrow>
                    (case run_actions b g arr argv' of
                       None \<Rightarrow> None
                     | Some (halted, _, evs) \<Rightarrow>
                         (let tr = [Call ''bss_init'', Call ''read_command_line''] @ out @
                                   [Call ''parse_options''] @ init_threads_and_memory @
                                   init_interrupts_and_devices b g @ [Call ''run_actions''] @ evs
                          in case halted of
                               Some h \<Rightarrow> Some (tr, h)
                             | None \<Rightarrow>
                                 if power_off_when_done g
                                 then Some (tr @ [Call ''power_off''] @ power_off b, POWER_OFF)
                                 else Some (tr @ [Call ''thread_exit''], THREAD_EXIT))))))"

text \<open>
  The order of the spec (SubsystemInitializer), by the names of the entry points, and the
  entry point that an event is a call of, if any.
\<close>

definition init_order :: "build \<Rightarrow> string list" where
  "init_order b =
     [''thread_init'', ''console_init'', ''palloc_init'', ''malloc_init'', ''paging_init''] @
     (if USERPROG b then [''tss_init'', ''gdt_init''] else []) @
     [''intr_init'', ''timer_init'', ''kbd_init'', ''input_init''] @
     (if USERPROG b then [''exception_init'', ''syscall_init''] else []) @
     [''thread_start'', ''serial_init_queue'', ''timer_calibrate''] @
     (if FILESYS b then [''disk_init'', ''filesys_init''] else []) @
     (if VM b then [''vm_init''] else [])"

fun init_name :: "event \<Rightarrow> string option" where
  "init_name (Call n) =
     (if n \<in> set (init_order \<lparr>USERPROG = True, FILESYS = True, VM = True\<rparr>) then Some n else None)"
| "init_name (Filesys_init _) = Some ''filesys_init''"
| "init_name _ = None"

text \<open>
  Events that are neither a call of an entry point of the order nor the call of
  \<^verbatim>\<open>run_actions\<close>: what the stages of \<^verbatim>\<open>main\<close> around the initialization produce.
\<close>

definition no_init :: "event list \<Rightarrow> bool" where
  "no_init evs \<longleftrightarrow> (\<forall>e\<in>set evs. init_name e = None \<and> e \<noteq> Call ''run_actions'')"

text \<open>
  A boot for the examples: the command line \<open>ls\<close>, one page of memory, four free pages.
\<close>

definition example_boot :: boot where
  "example_boot =
     \<lparr>boot_arg_cnt = 1, boot_args = ''ls'' @ [NUL, NUL], boot_externals = boot_globals,
      boot_mem_end = 0x1000, boot_free_pages = 4,
      boot_layout = \<lparr>kern_base = 0x8004000000, start = 0x8004001000,
                     end_kernel_text = 0x8004002000\<rparr>\<rparr>"

definition example_trace :: "event list" where
  "example_trace =
     [Call ''bss_init'', Call ''read_command_line'',
      Printf ''Kernel command line:'' [], Printf '' %s'' [Some ''ls''],
      Printf ''\<newline>'' [], Call ''parse_options'',
      Call ''thread_init'', Call ''console_init'', Call ''palloc_init'',
      Call ''malloc_init'', Call ''paging_init'', Call ''intr_init'',
      Call ''timer_init'', Call ''kbd_init'', Call ''input_init'',
      Call ''thread_start'', Call ''serial_init_queue'', Call ''timer_calibrate'',
      Call ''disk_init'', Filesys_init False, Printf ''Boot complete.\<newline>'' [],
      Call ''run_actions'', Fsutil fsutil_ls [Some ''ls'', None, None],
      Call ''thread_exit'']"

section \<open>Properties\<close>

subsection \<open>Page boundaries and the bits of an entry\<close>

lemma take_bit_word_add:
  "take_bit n (p + K) = take_bit n (take_bit n p + take_bit n K)" for p K :: "'a::len word"
  by transfer (simp add: take_bit_add min_def)

lemma aligned_take_bit: "aligned p \<longleftrightarrow> take_bit 12 p = 0"
proof -
  have "PGSIZE - 1 = (mask 12 :: u64)" by (simp add: PGSIZE_def mask_eq_exp_minus_1)
  then show ?thesis by (simp add: aligned_def take_bit_eq_mask)
qed

lemma aligned_unat: "aligned p \<longleftrightarrow> unat p mod 4096 = 0"
proof -
  have "unat (take_bit 12 p) = unat p mod 4096"
    by (simp add: unsigned_take_bit_eq take_bit_eq_mod unat_mod)
  moreover have "take_bit 12 p = 0 \<longleftrightarrow> unat (take_bit 12 p) = 0" by (simp only: unat_eq_0)
  ultimately show ?thesis by (simp only: aligned_take_bit)
qed

lemma take_bit_aligned_add: "aligned p \<Longrightarrow> take_bit 12 (p + K) = take_bit 12 K"
proof -
  assume "aligned p"
  then have p: "take_bit 12 p = 0" by (simp only: aligned_take_bit)
  have "take_bit 12 (p + K) = take_bit 12 (take_bit 12 p + take_bit 12 K)"
    by (rule take_bit_word_add)
  also have "\<dots> = take_bit 12 (take_bit 12 K)" by (simp only: p add_0)
  also have "\<dots> = take_bit 12 K" by (simp only: take_bit_take_bit min.idem)
  finally show ?thesis .
qed

lemma key_inj:
  assumes "aligned p" "aligned q" "drop_bit 12 (p + K) = drop_bit 12 (q + K)"
  shows "p = q"
proof -
  have t: "take_bit 12 (p + K) = take_bit 12 (q + K)"
    by (simp only: take_bit_aligned_add[OF assms(1)] take_bit_aligned_add[OF assms(2)])
  have "p + K = push_bit 12 (drop_bit 12 (p + K)) + take_bit 12 (p + K)"
    by (simp only: bits_ident)
  also have "\<dots> = push_bit 12 (drop_bit 12 (q + K)) + take_bit 12 (q + K)"
    by (simp only: assms(3) t)
  also have "\<dots> = q + K" by (simp only: bits_ident)
  finally show ?thesis by simp
qed

lemma aligned_0: "aligned 0" by (simp add: aligned_def)

lemma aligned_next: "aligned p \<Longrightarrow> aligned (p + PGSIZE)"
proof -
  assume "aligned p"
  then have "take_bit 12 (p + PGSIZE) = take_bit 12 PGSIZE" by (rule take_bit_aligned_add)
  also have "\<dots> = 0" by (simp add: PGSIZE_def)
  finally show ?thesis by (simp only: aligned_take_bit)
qed


lemma unat_PGSIZE: "unat PGSIZE = 4096" by (simp add: PGSIZE_def)

lemma aligned_less_next:
  assumes "aligned p" "aligned q" "q < p + PGSIZE"
  shows "q \<le> p"
proof -
  have u: "unat (p + PGSIZE) = (unat p + 4096) mod 2 ^ 64"
    by (simp add: unat_word_ariths unat_PGSIZE)
  from assms(3) have lt: "unat q < (unat p + 4096) mod 2 ^ 64"
    by (simp only: word_less_nat_alt u)
  have pb: "unat p < 2 ^ 64" using unsigned_less[of p] by simp
  from assms(1,2) obtain a b where ab: "unat p = 4096 * a" "unat q = 4096 * b"
    by (auto simp: aligned_unat elim!: dvdE)
  have e: "(2::nat) ^ 64 = 4096 * 2 ^ 52" by simp
  have "unat q \<le> unat p"
  proof (cases "unat p + 4096 < 2 ^ 64")
    case True
    then have "(unat p + 4096) mod 2 ^ 64 = unat p + 4096" by simp
    with lt have "unat q < unat p + 4096" by simp
    with ab show ?thesis by simp
  next
    case False
    from pb ab e have "a < 2 ^ 52" by simp
    moreover from False ab e have "2 ^ 52 \<le> a + 1" by simp
    ultimately have "a + 1 = 2 ^ 52" by simp
    with ab e have "unat p + 4096 = 2 ^ 64" by simp
    with lt show ?thesis by simp
  qed
  then show ?thesis by (simp only: word_le_nat_alt)
qed


lemma low_and:
  fixes p d :: u64
  assumes "aligned p" "d AND (PGSIZE - 1) = d"
  shows "p AND d = 0"
proof -
  have "p AND d = p AND (d AND (PGSIZE - 1))" by (simp only: assms(2))
  also have "\<dots> = (p AND (PGSIZE - 1)) AND d" by (simp add: ac_simps)
  also have "\<dots> = 0" using assms(1) by (simp add: aligned_def)
  finally show ?thesis .
qed

lemma aligned_and_not:
  fixes p :: u64
  assumes "aligned p"
  shows "p AND NOT (PGSIZE - 1) = p"
proof -
  have "p = p AND ((PGSIZE - 1) OR NOT (PGSIZE - 1))" by simp
  also have "\<dots> = (p AND (PGSIZE - 1)) OR (p AND NOT (PGSIZE - 1))"
    by (simp only: bit.conj_disj_distrib)
  also have "\<dots> = p AND NOT (PGSIZE - 1)"
    using assms by (simp add: aligned_def)
  finally show ?thesis by simp
qed

lemma page_perm_cases:
  "page_perm L va = (if start L \<le> va \<and> va < end_kernel_text L then 1 else 3)"
  by (simp add: page_perm_def PTE_P_def PTE_W_def)

lemma pte_bits:
  assumes "aligned p"
  shows "PTE_ADDR (p OR page_perm L va) = p \<and>
         (p OR page_perm L va) AND PTE_P = PTE_P \<and>
         ((p OR page_perm L va) AND PTE_W = PTE_W \<longleftrightarrow> \<not> (start L \<le> va \<and> va < end_kernel_text L))"
proof -
  have p1: "p AND 1 = 0" using low_and[OF assms, of 1] by (simp add: PGSIZE_def)
  have p2: "p AND 2 = 0" using low_and[OF assms, of 2] by (simp add: PGSIZE_def)
  have c: "page_perm L va AND NOT (PGSIZE - 1) = 0"
    by (simp add: page_perm_cases PGSIZE_def)
  have a: "PTE_ADDR (p OR page_perm L va) = p"
    unfolding PTE_ADDR_def by (simp only: bit.conj_disj_distrib2 aligned_and_not[OF assms] c) simp
  have b: "(p OR page_perm L va) AND PTE_P = PTE_P"
    by (simp add: page_perm_cases PTE_P_def bit.conj_disj_distrib2 p1)
  have d: "(p OR page_perm L va) AND PTE_W = PTE_W \<longleftrightarrow> \<not> (start L \<le> va \<and> va < end_kernel_text L)"
    by (simp add: page_perm_cases PTE_W_def bit.conj_disj_distrib2 p2)
  from a b d show ?thesis by blast
qed

subsection \<open>The kernel page table\<close>

lemma distinct_table_path: "distinct (table_path va)"
  by (simp add: table_path_def)

lemma distinct_missing: "distinct (missing s va)"
  by (simp add: missing_def distinct_table_path)

lemma walk_found:
  assumes "pml4e_walk s va True = (Some pte, s')"
  shows "pte = drop_bit 12 va" and "length (missing s va) \<le> free_pages s"
    and "free_pages s' = free_pages s - length (missing s va)"
    and "tables s' = tables s \<union> set (missing s va)"
    and "entries s' = entries s"
  using assms by (auto simp: pml4e_walk_def Let_def split: if_splits)

lemma walk_failed:
  assumes "pml4e_walk s va True = (None, s')"
  shows "s' = s" and "free_pages s < length (missing s va)"
  using assms by (auto simp: pml4e_walk_def Let_def split: if_splits)

lemma missing_after:
  assumes "tables s' = tables s \<union> set (missing s va)"
  shows "missing s' vb = filter (\<lambda>t. t \<notin> set (missing s va)) (missing s vb)"
  using assms by (auto simp: missing_def intro: filter_cong)

lemma length_filter_notin:
  assumes "distinct xs"
  shows "length xs \<le> length (filter (\<lambda>t. t \<notin> set ys) xs) + length ys"
proof -
  have "length xs = length (filter (\<lambda>t. t \<in> set ys) xs) + length (filter (\<lambda>t. t \<notin> set ys) xs)"
    by (rule sum_length_filter_compl[symmetric])
  moreover have "length (filter (\<lambda>t. t \<in> set ys) xs) \<le> length ys"
  proof -
    have "distinct (filter (\<lambda>t. t \<in> set ys) xs)" using assms by simp
    then have "length (filter (\<lambda>t. t \<in> set ys) xs) = card (set (filter (\<lambda>t. t \<in> set ys) xs))"
      by (rule distinct_card[symmetric])
    also have "\<dots> \<le> card (set ys)" by (rule card_mono) auto
    also have "\<dots> \<le> length ys" by (rule card_length)
    finally show ?thesis .
  qed
  ultimately show ?thesis by simp
qed


lemma step_found_self:
  assumes w: "pml4e_walk s (ptov L pa) True = (Some pte, s')"
  shows "entry_inv L (s'\<lparr>entries := (entries s')(pte := pa OR page_perm L (ptov L pa))\<rparr>) pa"
proof -
  note f = walk_found[OF w]
  let ?s1 = "s'\<lparr>entries := (entries s')(pte := pa OR page_perm L (ptov L pa))\<rparr>"
  have "missing ?s1 (ptov L pa) = []"
    using f(4) by (auto simp: missing_def filter_empty_conv)
  moreover have "entries ?s1 (drop_bit 12 (ptov L pa)) = pa OR page_perm L (ptov L pa)"
    by (simp add: f(1))
  ultimately show ?thesis unfolding entry_inv_def by blast
qed

lemma step_found_other:
  assumes w: "pml4e_walk s (ptov L pa) True = (Some pte, s')"
    and al: "aligned pa" "aligned q" and ne: "q \<noteq> pa" and inv: "entry_inv L s q"
  shows "entry_inv L (s'\<lparr>entries := (entries s')(pte := v)\<rparr>) q"
proof -
  note f = walk_found[OF w]
  let ?s1 = "s'\<lparr>entries := (entries s')(pte := v)\<rparr>"
  have t: "tables ?s1 = tables s \<union> set (missing s (ptov L pa))" using f(4) by simp
  have m: "missing ?s1 (ptov L q) = filter (\<lambda>t. t \<notin> set (missing s (ptov L pa))) (missing s (ptov L q))"
    by (rule missing_after[OF t])
  have key: "drop_bit 12 (ptov L q) \<noteq> pte"
    using key_inj[OF al(2,1), of "kern_base L"] ne by (auto simp: f(1) ptov_def)
  from inv show ?thesis unfolding entry_inv_def
  proof
    assume a: "missing s (ptov L q) = [] \<and> entries s (drop_bit 12 (ptov L q)) = q OR page_perm L (ptov L q)"
    then have "missing ?s1 (ptov L q) = []" by (simp only: m) simp
    moreover have "entries ?s1 (drop_bit 12 (ptov L q)) = q OR page_perm L (ptov L q)"
      using a key by (simp add: f(5))
    ultimately show "(missing ?s1 (ptov L q) = [] \<and> entries ?s1 (drop_bit 12 (ptov L q)) = q OR page_perm L (ptov L q))
        \<or> free_pages ?s1 < length (missing ?s1 (ptov L q))" by blast
  next
    assume b: "free_pages s < length (missing s (ptov L q))"
    have "length (missing s (ptov L q)) \<le> length (missing ?s1 (ptov L q)) + length (missing s (ptov L pa))"
      unfolding m by (rule length_filter_notin[OF distinct_missing])
    with b f(2,3) have "free_pages ?s1 < length (missing ?s1 (ptov L q))" by simp
    then show "(missing ?s1 (ptov L q) = [] \<and> entries ?s1 (drop_bit 12 (ptov L q)) = q OR page_perm L (ptov L q))
        \<or> free_pages ?s1 < length (missing ?s1 (ptov L q))" by blast
  qed
qed


lemma entry_inv_failed:
  assumes "pml4e_walk s (ptov L pa) True = (None, s')"
  shows "s' = s" and "entry_inv L s pa"
  using walk_failed[OF assms] by (simp_all add: entry_inv_def)

lemma paging_loop_inv:
  assumes "paging_loop L mem_end pa s = Some s'"
  shows "aligned pa \<longrightarrow> (\<forall>q. aligned q \<and> q < pa \<longrightarrow> entry_inv L s q) \<longrightarrow>
         (\<forall>q. aligned q \<and> q < mem_end \<longrightarrow> entry_inv L s' q)"
proof (rule paging_loop.raw_induct
    [where P = "\<lambda>L mem_end pa s y. aligned pa \<longrightarrow>
        (\<forall>q. aligned q \<and> q < pa \<longrightarrow> entry_inv L s q) \<longrightarrow>
        (\<forall>q. aligned q \<and> q < mem_end \<longrightarrow> entry_inv L y q)", OF _ assms], goal_cases)
  case (1 loop L mem_end pa s y)
  note IH = "1"(1) and body = "1"(2)
  show ?case
  proof (intro impI allI, elim conjE)
    fix q
    assume al: "aligned pa" and inv: "\<forall>q. aligned q \<and> q < pa \<longrightarrow> entry_inv L s q"
      and q: "aligned q" "q < mem_end"
    show "entry_inv L y q"
    proof (cases "pa < mem_end")
      case False
      with body have "y = s" by simp
      moreover from q(2) False have "q < pa" by simp
      ultimately show ?thesis using inv q(1) by simp
    next
      case True
      obtain r s1 where w: "pml4e_walk s (ptov L pa) True = (r, s1)"
        by (cases "pml4e_walk s (ptov L pa) True")
      have al': "aligned (pa + PGSIZE)" using al by (rule aligned_next)
      have below: "x < pa \<or> x = pa" if "aligned x" "x < pa + PGSIZE" for x
        using aligned_less_next[OF al that] by auto
      show ?thesis
      proof (cases r)
        case None
        from w None have w': "pml4e_walk s (ptov L pa) True = (None, s1)" by simp
        from entry_inv_failed[OF w'] have s1: "s1 = s" and self: "entry_inv L s pa" .
        from body True show ?thesis
          unfolding w' s1
        proof (simp only: if_True prod.case option.case)
          assume run: "loop L mem_end (pa + PGSIZE) s = Some y"
          have "\<forall>x. aligned x \<and> x < pa + PGSIZE \<longrightarrow> entry_inv L s x"
          proof (intro allI impI, elim conjE)
            fix x assume x: "aligned x" "x < pa + PGSIZE"
            from below[OF x] show "entry_inv L s x"
            proof
              assume "x < pa" with inv x(1) show ?thesis by simp
            next
              assume "x = pa" with self show ?thesis by simp
            qed
          qed
          with IH[OF run] al' q show ?thesis by simp
        qed
      next
        case (Some pte)
        let ?s2 = "s1\<lparr>entries := (entries s1)(pte := pa OR page_perm L (ptov L pa))\<rparr>"
        from w Some have w': "pml4e_walk s (ptov L pa) True = (Some pte, s1)" by simp
        from body True show ?thesis
          unfolding w'
        proof (simp only: if_True prod.case option.case)
          assume run: "loop L mem_end (pa + PGSIZE) ?s2 = Some y"
          have "\<forall>x. aligned x \<and> x < pa + PGSIZE \<longrightarrow> entry_inv L ?s2 x"
          proof (intro allI impI, elim conjE)
            fix x assume x: "aligned x" "x < pa + PGSIZE"
            show "entry_inv L ?s2 x"
            proof (cases "x = pa")
              case True
              then show ?thesis using step_found_self[OF w'] by simp
            next
              case False
              with below[OF x] have "x < pa" by simp
              with inv x(1) have "entry_inv L s x" by simp
              from step_found_other[OF w' al x(1) False this] show ?thesis .
            qed
          qed
          with IH[OF run] al' q show ?thesis by simp
        qed
      qed
    qed
  qed
qed

lemma paging_loop_returns:
  assumes "unat mem_end + 4096 \<le> 2 ^ 64"
  shows "\<exists>s'. paging_loop L mem_end pa s = Some s'"
proof (induction "unat mem_end - unat pa" arbitrary: pa s rule: less_induct)
  case less
  show ?case
  proof (cases "pa < mem_end")
    case False
    then show ?thesis by (subst paging_loop.simps) simp
  next
    case True
    then have lt: "unat pa < unat mem_end" by (simp only: word_less_nat_alt)
    with assms have "unat pa + unat PGSIZE < 2 ^ 64" by (simp add: unat_PGSIZE)
    then have "unat (pa + PGSIZE) = unat pa + 4096"
      by (simp add: unat_add_lem[THEN iffD1] unat_PGSIZE)
    with lt have dec: "unat mem_end - unat (pa + PGSIZE) < unat mem_end - unat pa" by simp
    obtain r s1 where w: "pml4e_walk s (ptov L pa) True = (r, s1)" by (cases "pml4e_walk s (ptov L pa) True")
    show ?thesis
    proof (cases r)
      case None
      with w True less.hyps[OF dec, of s1] show ?thesis
        by (subst paging_loop.simps) simp
    next
      case (Some pte)
      with w True less.hyps[OF dec, of "s1\<lparr>entries := (entries s1)(pte := pa OR page_perm L (ptov L pa))\<rparr>"]
      show ?thesis
        by (subst paging_loop.simps) simp
    qed
  qed
qed

lemma pte_for_eq:
  "pte_for s va = (if missing s va = [] then Some (entries s (drop_bit 12 va)) else None)"
  by (simp add: pte_for_def pml4e_walk_def Let_def)

lemma paging_init_Inr:
  assumes "paging_init L free mem_end = Some (Inr s)"
  obtains s1 where "paging_loop L mem_end 0
      \<lparr>free_pages = free - 1, tables = {}, entries = (\<lambda>_. 0), active = False\<rparr> = Some s1"
    and "s = s1\<lparr>active := True\<rparr>"
  using assms by (auto simp: paging_init_def split: if_splits option.splits)

lemma paging_init_entry_inv:
  assumes "paging_init L free mem_end = Some (Inr s)" and "aligned p" and "p < mem_end"
  shows "entry_inv L s p"
proof -
  from assms(1) obtain s1 where run: "paging_loop L mem_end 0
      \<lparr>free_pages = free - 1, tables = {}, entries = (\<lambda>_. 0), active = False\<rparr> = Some s1"
    and s: "s = s1\<lparr>active := True\<rparr>" by (rule paging_init_Inr)
  have "\<forall>q. aligned q \<and> q < (0::u64) \<longrightarrow>
          entry_inv L \<lparr>free_pages = free - 1, tables = {}, entries = (\<lambda>_. 0), active = False\<rparr> q"
    by simp
  with paging_loop_inv[OF run] aligned_0 assms(2,3) have "entry_inv L s1 p" by blast
  then show ?thesis by (simp add: s entry_inv_def missing_def)
qed

lemma aligned_in_range_pages:
  assumes "aligned q" and "q < mem_end"
  shows "q \<in> set (range_pages mem_end)"
proof -
  from assms(1) obtain k where k: "unat q = 4096 * k" by (auto simp: aligned_unat elim!: dvdE)
  from assms(2) have "unat q < unat mem_end" by (simp only: word_less_nat_alt)
  with k have lt: "k < (unat mem_end + 4095) div 4096" by simp
  have "q = of_nat (unat q)" by simp
  also have "\<dots> = of_nat k * PGSIZE" by (simp only: k) (simp add: PGSIZE_def)
  finally have "q = of_nat k * PGSIZE" .
  with lt show ?thesis by (auto simp: range_pages_def)
qed

lemma finite_needed: "finite (needed_tables L mem_end)"
  by (simp add: needed_tables_def)

lemma path_needed:
  "aligned q \<Longrightarrow> q < mem_end \<Longrightarrow> set (table_path (ptov L q)) \<subseteq> needed_tables L mem_end"
  using aligned_in_range_pages[of q mem_end] by (auto simp: needed_tables_def)

lemma missing_subset: "set (missing s va) \<subseteq> set (table_path va) - tables s"
  by (auto simp: missing_def)

text \<open>The tables missing for an address of the range and the tables present are needed ones.\<close>

lemma missing_le_free:
  assumes acc: "accounted free N s" and fin: "finite N" and sub: "set (table_path va) \<subseteq> N"
  shows "length (missing s va) + card (tables s) \<le> card N"
proof -
  have "length (missing s va) = card (set (missing s va))"
    by (simp add: distinct_card distinct_missing)
  also have "\<dots> \<le> card (N - tables s)"
    using missing_subset[of s va] sub fin by (intro card_mono) auto
  also have "\<dots> = card N - card (tables s)"
  proof -
    from acc have ts: "tables s \<subseteq> N" by (simp add: accounted_def)
    with fin have "finite (tables s)" by (rule rev_finite_subset)
    from card_Diff_subset[OF this ts] show ?thesis .
  qed
  finally have "length (missing s va) \<le> card N - card (tables s)" .
  moreover have "card (tables s) \<le> card N" using acc fin by (simp add: accounted_def card_mono)
  ultimately show ?thesis by simp
qed

lemma accounted_found:
  assumes w: "pml4e_walk s va True = (Some pte, s')" and acc: "accounted free N s"
    and fin: "finite N" and sub: "set (table_path va) \<subseteq> N"
  shows "accounted free N (s'\<lparr>entries := e\<rparr>)"
proof -
  note f = walk_found[OF w]
  have ft: "finite (tables s)" using acc fin by (auto simp: accounted_def intro: finite_subset)
  have dj: "tables s \<inter> set (missing s va) = {}" by (auto simp: missing_def)
  have "card (tables s \<union> set (missing s va)) = card (tables s) + length (missing s va)"
    using ft dj by (simp add: card_Un_disjoint distinct_card distinct_missing)
  moreover have "set (missing s va) \<subseteq> N" using missing_subset[of s va] sub by auto
  ultimately show ?thesis using acc f(2,3,4) by (simp add: accounted_def)
qed

lemma paging_loop_accounted:
  assumes "paging_loop L mem_end pa s = Some s'"
  shows "aligned pa \<longrightarrow> accounted free (needed_tables L mem_end) s \<longrightarrow>
         accounted free (needed_tables L mem_end) s'"
proof (rule paging_loop.raw_induct
    [where P = "\<lambda>L mem_end pa s y. aligned pa \<longrightarrow> accounted free (needed_tables L mem_end) s \<longrightarrow>
        accounted free (needed_tables L mem_end) y", OF _ assms], goal_cases)
  case (1 loop L mem_end pa s y)
  note IH = "1"(1) and body = "1"(2)
  show ?case
  proof (intro impI)
    assume al: "aligned pa" and acc: "accounted free (needed_tables L mem_end) s"
    show "accounted free (needed_tables L mem_end) y"
    proof (cases "pa < mem_end")
      case False
      with body have "y = s" by simp
      with acc show ?thesis by simp
    next
      case True
      obtain r s1 where w: "pml4e_walk s (ptov L pa) True = (r, s1)"
        by (cases "pml4e_walk s (ptov L pa) True")
      have al': "aligned (pa + PGSIZE)" using al by (rule aligned_next)
      show ?thesis
      proof (cases r)
        case None
        from w None have w': "pml4e_walk s (ptov L pa) True = (None, s1)" by simp
        from walk_failed(1)[OF w'] have s1: "s1 = s" .
        from body True show ?thesis
          unfolding w' s1
        proof (simp only: if_True prod.case option.case)
          assume run: "loop L mem_end (pa + PGSIZE) s = Some y"
          with IH[OF run] al' acc show ?thesis by simp
        qed
      next
        case (Some pte)
        let ?s2 = "s1\<lparr>entries := (entries s1)(pte := pa OR page_perm L (ptov L pa))\<rparr>"
        from w Some have w': "pml4e_walk s (ptov L pa) True = (Some pte, s1)" by simp
        have acc2: "accounted free (needed_tables L mem_end) ?s2"
          using accounted_found[OF w' acc finite_needed path_needed[OF al True]] .
        from body True show ?thesis
          unfolding w'
        proof (simp only: if_True prod.case option.case)
          assume run: "loop L mem_end (pa + PGSIZE) ?s2 = Some y"
          with IH[OF run] al' acc2 show ?thesis by simp
        qed
      qed
    qed
  qed
qed

lemma paging_init_accounted:
  assumes "paging_init L free mem_end = Some (Inr s)"
  shows "accounted free (needed_tables L mem_end) s"
proof -
  from assms obtain s1 where run: "paging_loop L mem_end 0
      \<lparr>free_pages = free - 1, tables = {}, entries = (\<lambda>_. 0), active = False\<rparr> = Some s1"
    and s: "s = s1\<lparr>active := True\<rparr>" by (rule paging_init_Inr)
  from assms have "free \<noteq> 0" by (auto simp: paging_init_def split: if_splits)
  then have "accounted free (needed_tables L mem_end)
      \<lparr>free_pages = free - 1, tables = {}, entries = (\<lambda>_. 0), active = False\<rparr>"
    by (simp add: accounted_def)
  with paging_loop_accounted[OF run, of free] aligned_0 have "accounted free (needed_tables L mem_end) s1"
    by blast
  then show ?thesis by (simp add: s accounted_def)
qed


text \<open>
  Claim C1, as amended. After \<^verbatim>\<open>paging_init\<close> has returned, the pages it has taken from
  the allocator are the top-level table and the intermediate tables of the result, all of
  them tables that the addresses \<open>ptov p\<close> of the range need. For every physical address
  \<open>p\<close> below \<open>mem_end\<close> on a page boundary, either the walk reaches an entry for \<open>ptov p\<close>, and
  that entry holds the address \<open>p\<close>, has the present bit set, and has the writable bit set
  exactly when \<open>ptov p\<close> is outside \<open>[start, _end_kernel_text)\<close>; or it reaches none, and then
  the allocator has fewer free pages left than the tables missing for \<open>ptov p\<close>, and the
  free pages that \<^verbatim>\<open>paging_init\<close> was given were not more than the tables the range needs
  (\<^verbatim>\<open>paging_init\<close> skips a page whose walk returns no entry). So when the allocator has a
  free page for the top-level table and for every table the range needs, every page of the
  range has its entry.
\<close>

theorem paging_init_maps_reached_pages:
  assumes "paging_init L free mem_end = Some (Inr s)"
  shows "free_pages s + card (tables s) + 1 = free \<and>
         tables s \<subseteq> needed_tables L mem_end \<and>
         (\<forall>p. aligned p \<and> p < mem_end \<longrightarrow>
            (case pte_for s (ptov L p) of
               Some e \<Rightarrow>
                 PTE_ADDR e = p \<and> e AND PTE_P = PTE_P \<and>
                 (e AND PTE_W = PTE_W \<longleftrightarrow>
                    \<not> (start L \<le> ptov L p \<and> ptov L p < end_kernel_text L))
             | None \<Rightarrow>
                 free_pages s < length (missing s (ptov L p)) \<and>
                 free \<le> card (needed_tables L mem_end))) \<and>
         (card (needed_tables L mem_end) < free \<longrightarrow>
            (\<forall>p. aligned p \<and> p < mem_end \<longrightarrow>
               (\<exists>e. pte_for s (ptov L p) = Some e \<and>
                 PTE_ADDR e = p \<and> e AND PTE_P = PTE_P \<and>
                 (e AND PTE_W = PTE_W \<longleftrightarrow>
                    \<not> (start L \<le> ptov L p \<and> ptov L p < end_kernel_text L)))))"
proof -
  let ?N = "needed_tables L mem_end"
  let ?ok = "\<lambda>p e. PTE_ADDR e = p \<and> e AND PTE_P = PTE_P \<and>
                 (e AND PTE_W = PTE_W \<longleftrightarrow>
                    \<not> (start L \<le> ptov L p \<and> ptov L p < end_kernel_text L))"
  from paging_init_accounted[OF assms] have acc: "accounted free ?N s" .
  then have books: "free_pages s + card (tables s) + 1 = free" and sub: "tables s \<subseteq> ?N"
    by (simp_all add: accounted_def)
  have page: "(missing s (ptov L p) = [] \<and> pte_for s (ptov L p) = Some (p OR page_perm L (ptov L p)) \<and>
                ?ok p (p OR page_perm L (ptov L p))) \<or>
              (pte_for s (ptov L p) = None \<and> free_pages s < length (missing s (ptov L p)) \<and>
                free \<le> card ?N)"
    if p: "aligned p" "p < mem_end" for p
  proof -
    from paging_init_entry_inv[OF assms p] show ?thesis
      unfolding entry_inv_def
    proof
      assume a: "missing s (ptov L p) = [] \<and>
              entries s (drop_bit 12 (ptov L p)) = p OR page_perm L (ptov L p)"
      then have "pte_for s (ptov L p) = Some (p OR page_perm L (ptov L p))"
        by (simp add: pte_for_eq)
      with a pte_bits[OF p(1), of L "ptov L p"] show ?thesis by simp
    next
      assume a: "free_pages s < length (missing s (ptov L p))"
      then have "missing s (ptov L p) \<noteq> []" by auto
      then have n: "pte_for s (ptov L p) = None" by (simp add: pte_for_eq)
      from missing_le_free[OF acc finite_needed path_needed[OF p]]
      have "length (missing s (ptov L p)) + card (tables s) \<le> card ?N" .
      with a books have "free \<le> card ?N" by simp
      with n a show ?thesis by simp
    qed
  qed
  have 3: "\<forall>p. aligned p \<and> p < mem_end \<longrightarrow>
            (case pte_for s (ptov L p) of Some e \<Rightarrow> ?ok p e
             | None \<Rightarrow> free_pages s < length (missing s (ptov L p)) \<and> free \<le> card ?N)"
  proof (intro allI impI, elim conjE)
    fix p assume p: "aligned p" "p < mem_end"
    from page[OF p] show "case pte_for s (ptov L p) of Some e \<Rightarrow> ?ok p e
             | None \<Rightarrow> free_pages s < length (missing s (ptov L p)) \<and> free \<le> card ?N"
      by (elim disjE conjE) simp_all
  qed
  have 4: "card ?N < free \<longrightarrow>
            (\<forall>p. aligned p \<and> p < mem_end \<longrightarrow> (\<exists>e. pte_for s (ptov L p) = Some e \<and> ?ok p e))"
  proof (intro allI impI, elim conjE)
    fix p assume c: "card ?N < free" and p: "aligned p" "p < mem_end"
    from page[OF p] c show "\<exists>e. pte_for s (ptov L p) = Some e \<and> ?ok p e"
      by (elim disjE conjE) simp_all
  qed
  from books sub 3 4 show ?thesis by blast
qed


text \<open>
  The witness: three pages of memory, the second of them kernel code, and four free pages
  (the top-level table and the three intermediate tables the range needs). The entry for
  the second page is \<open>0x1001\<close>: the address \<open>0x1000\<close>, present, not writable.
\<close>

theorem paging_init_maps_reached_pages_witness:
  "paging_init \<lparr>kern_base = 0x8004000000, start = 0x8004001000, end_kernel_text = 0x8004002000\<rparr>
       4 0x3000
     = Some (Inr \<lparr>free_pages = 0, tables = {(3, 1), (2, 512), (1, 262176)},
                  entries = (\<lambda>_. 0)(134234112 := 3, 134234113 := 0x1001, 134234114 := 0x2003),
                  active = True\<rparr>) \<and>
   card (needed_tables \<lparr>kern_base = 0x8004000000, start = 0x8004001000,
                         end_kernel_text = 0x8004002000\<rparr> 0x3000) < 4 \<and>
   aligned 0x1000 \<and> (0x1000 :: u64) < 0x3000 \<and>
   pte_for \<lparr>free_pages = 0, tables = {(3, 1), (2, 512), (1, 262176)},
            entries = (\<lambda>_. 0)(134234112 := 3, 134234113 := 0x1001, 134234114 := 0x2003),
            active = True\<rparr>
       (ptov \<lparr>kern_base = 0x8004000000, start = 0x8004001000, end_kernel_text = 0x8004002000\<rparr> 0x1000)
     = Some 0x1001 \<and>
   PTE_ADDR 0x1001 = 0x1000 \<and> 0x1001 AND PTE_P = PTE_P \<and> 0x1001 AND PTE_W \<noteq> PTE_W"
proof -
  let ?L = "\<lparr>kern_base = 0x8004000000, start = 0x8004001000, end_kernel_text = 0x8004002000\<rparr>"
  let ?s = "\<lparr>free_pages = 0, tables = {(3, 1), (2, 512), (1, 262176)},
             entries = (\<lambda>_. 0)(134234112 := 3, 134234113 := 0x1001, 134234114 := 0x2003),
             active = True\<rparr>"
  have run: "paging_init ?L 4 0x3000 = Some (Inr ?s)"
    by (simp add: paging_init_def paging_loop.simps pml4e_walk_def missing_def table_path_def
          ptov_def PGSIZE_def page_perm_def PTE_P_def PTE_W_def Let_def)
  have enough: "card (needed_tables ?L 0x3000) < 4" by code_simp
  have al: "aligned 0x1000" by (simp add: aligned_def PGSIZE_def)
  have lt: "(0x1000 :: u64) < 0x3000" by simp
  from paging_init_maps_reached_pages[OF run] enough al lt
  have "\<exists>e. pte_for ?s (ptov ?L 0x1000) = Some e \<and> PTE_ADDR e = 0x1000 \<and> e AND PTE_P = PTE_P \<and>
          (e AND PTE_W = PTE_W \<longleftrightarrow>
             \<not> (start ?L \<le> ptov ?L 0x1000 \<and> ptov ?L 0x1000 < end_kernel_text ?L))"
    by blast
  moreover have e: "pte_for ?s (ptov ?L 0x1000) = Some 0x1001"
    by (simp add: pte_for_def pml4e_walk_def missing_def table_path_def ptov_def)
  ultimately have "PTE_ADDR 0x1001 = 0x1000 \<and> 0x1001 AND PTE_P = PTE_P \<and> 0x1001 AND PTE_W \<noteq> PTE_W"
    by (simp add: ptov_def)
  with run enough al lt e show ?thesis by simp
qed

text \<open>
  Claim C1, as stated, fails: with one free page the top-level table is allocated, the walk
  for the only page of memory returns no entry, and \<^verbatim>\<open>paging_init\<close> returns with that page
  unmapped: no entry is reached for \<open>ptov 0\<close>, and the slot it would have is 0, not present.
\<close>

theorem paging_init_unmapped_page_counterexample:
  "paging_init \<lparr>kern_base = 0x8004000000, start = 0x8004001000, end_kernel_text = 0x8004002000\<rparr>
       1 0x1000
     = Some (Inr \<lparr>free_pages = 0, tables = {}, entries = (\<lambda>_. 0), active = True\<rparr>) \<and>
   aligned 0 \<and> (0 :: u64) < 0x1000 \<and>
   pte_for \<lparr>free_pages = 0, tables = {}, entries = (\<lambda>_. 0), active = True\<rparr>
       (ptov \<lparr>kern_base = 0x8004000000, start = 0x8004001000, end_kernel_text = 0x8004002000\<rparr> 0)
     = None \<and>
   entries \<lparr>free_pages = 0, tables = {}, entries = (\<lambda>_. 0), active = True\<rparr>
       (drop_bit 12 (ptov \<lparr>kern_base = 0x8004000000, start = 0x8004001000,
                           end_kernel_text = 0x8004002000\<rparr> 0)) AND PTE_P \<noteq> PTE_P"
  by (simp add: paging_init_def paging_loop.simps pml4e_walk_def missing_def table_path_def
        ptov_def PGSIZE_def pte_for_def aligned_def PTE_P_def Let_def)

text \<open>
  Claim C2, as amended. When the walk returns no entry for a page, the loop of
  \<^verbatim>\<open>paging_init\<close> writes nothing and goes on with the next page; it does not halt. With a
  free page for the top-level table (the only allocation under \<^verbatim>\<open>PAL_ASSERT\<close>) and
  \<open>mem_end\<close> at least a page below \<open>2^64\<close>, \<^verbatim>\<open>paging_init\<close> returns, whatever the walks
  return, and the table is active.
\<close>

theorem paging_init_skips_failed_walk:
  assumes "0 < free" and "unat mem_end + unat PGSIZE \<le> 2 ^ 64"
  shows "(\<exists>s. paging_init L free mem_end = Some (Inr s) \<and> active s) \<and>
         (\<forall>pa s. pa < mem_end \<and> fst (pml4e_walk s (ptov L pa) True) = None \<longrightarrow>
            paging_loop L mem_end pa s = paging_loop L mem_end (pa + PGSIZE) s)"
proof
  from assms(2) have "unat mem_end + 4096 \<le> 2 ^ 64" by (simp add: unat_PGSIZE)
  from paging_loop_returns[OF this] obtain s1 where "paging_loop L mem_end 0
      \<lparr>free_pages = free - 1, tables = {}, entries = (\<lambda>_. 0), active = False\<rparr> = Some s1" by blast
  with assms(1) have "paging_init L free mem_end = Some (Inr (s1\<lparr>active := True\<rparr>))"
    by (simp add: paging_init_def)
  then show "\<exists>s. paging_init L free mem_end = Some (Inr s) \<and> active s" by simp
next
  show "\<forall>pa s. pa < mem_end \<and> fst (pml4e_walk s (ptov L pa) True) = None \<longrightarrow>
            paging_loop L mem_end pa s = paging_loop L mem_end (pa + PGSIZE) s"
  proof (intro allI impI, elim conjE)
    fix pa s assume lt: "pa < mem_end" and f: "fst (pml4e_walk s (ptov L pa) True) = None"
    then obtain s1 where w: "pml4e_walk s (ptov L pa) True = (None, s1)"
      by (cases "pml4e_walk s (ptov L pa) True") auto
    from walk_failed(1)[OF w] w lt
    show "paging_loop L mem_end pa s = paging_loop L mem_end (pa + PGSIZE) s"
      by (subst paging_loop.simps) simp
  qed
qed

theorem paging_init_skips_failed_walk_witness:
  "(0::nat) < 1 \<and> unat (0x2000 :: u64) + unat PGSIZE \<le> 2 ^ 64 \<and>
   (\<exists>s. paging_init \<lparr>kern_base = 0x8004000000, start = 0x8004001000, end_kernel_text = 0x8004002000\<rparr>
            1 0x2000 = Some (Inr s) \<and> active s)"
  using paging_init_skips_failed_walk
          [of 1 "0x2000"
              "\<lparr>kern_base = 0x8004000000, start = 0x8004001000, end_kernel_text = 0x8004002000\<rparr>"]
  by (simp add: PGSIZE_def)

text \<open>
  Claim C2, as stated, fails: with one free page and two pages of memory the walk for the
  first page returns no entry, and \<^verbatim>\<open>paging_init\<close> does not halt: it goes through both pages
  and returns with the table active.
\<close>

theorem paging_init_no_halt_counterexample:
  "fst (pml4e_walk \<lparr>free_pages = 0, tables = {}, entries = (\<lambda>_. 0), active = False\<rparr>
          (ptov \<lparr>kern_base = 0x8004000000, start = 0x8004001000, end_kernel_text = 0x8004002000\<rparr> 0)
          True) = None \<and>
   paging_init \<lparr>kern_base = 0x8004000000, start = 0x8004001000, end_kernel_text = 0x8004002000\<rparr>
       1 0x2000
     = Some (Inr \<lparr>free_pages = 0, tables = {}, entries = (\<lambda>_. 0), active = True\<rparr>)"
  by (simp add: paging_init_def paging_loop.simps pml4e_walk_def missing_def table_path_def
        ptov_def PGSIZE_def Let_def)

subsection \<open>The command line\<close>

lemma strnlen_zeros: "strnlen (replicate k NUL) m = 0"
  by (cases k; cases m) (simp_all add: strnlen_def)

text \<open>Over zero bytes every token is empty and takes one byte: the loop stores \<open>n\<close> pointers.\<close>

lemma read_loop_zeros:
  "i \<le> n \<Longrightarrow> n \<le> L \<Longrightarrow> n \<le> length argv \<Longrightarrow>
   \<exists>a'. read_loop (replicate L NUL) (int n) (int i) i argv = Inr a' \<and> length a' = length argv"
proof (induction "n - i" arbitrary: i argv)
  case 0
  then show ?case by (subst read_loop.simps) simp
next
  case (Suc k)
  then have lt: "i < n" by simp
  with Suc.prems have st: "store argv (int i) (Some i) = Inr (argv[i := Some i])"
    by (simp add: store_def)
  have "k = n - Suc i" using Suc.hyps(2) by simp
  from Suc.hyps(1)[OF this, of "argv[i := Some i]"] Suc.prems lt
  obtain a' where a': "read_loop (replicate L NUL) (int n) (int (Suc i)) (Suc i) (argv[i := Some i]) = Inr a'"
      "length a' = length argv" by auto
  have "read_loop (replicate L NUL) (int n) (int i) i argv =
        read_loop (replicate L NUL) (int n) (int (Suc i)) (Suc i) (argv[i := Some i])"
    using lt Suc.prems st by (subst read_loop.simps) (simp add: strnlen_zeros add.commute)
  with a' show ?case by simp
qed

lemma sint_of_nat_u32: "n < 2 ^ 31 \<Longrightarrow> sint (of_nat n :: u32) = int n"
proof -
  assume "n < 2 ^ 31"
  then have "int n < 2 ^ 31" by (metis of_nat_less_numeral_power_cancel_iff)
  then show ?thesis
    by (simp add: signed_of_nat signed_take_bit_int_eq_self)
qed

text \<open>
  Whatever the length \<open>L\<close> of the range (\<^verbatim>\<open>LOADER_ARGS_LEN\<close>, at least 1): with
  \<open>L div 2 + 1\<close> empty arguments the panic never fires, every slot of \<^verbatim>\<open>argv\<close> takes a
  pointer, and the null pointer is stored one slot past the array.
\<close>

lemma read_command_line_empty_arguments:
  assumes "1 \<le> L" and "L div 2 + 1 < 2 ^ 31"
  shows "read_command_line (of_nat (L div 2 + 1)) (replicate L NUL)
           = Inl (OUT_OF_BOUNDS (int (L div 2 + 1)))"
proof -
  let ?n = "L div 2 + 1"
  have s: "sint (of_nat ?n :: u32) = int ?n"
    using assms(2) by (rule sint_of_nat_u32)
  have "?n \<le> L" using assms(1) by simp
  from read_loop_zeros[of 0 ?n L "replicate ?n None", OF _ this]
  obtain a' where a': "read_loop (replicate L NUL) (int ?n) 0 0 (replicate ?n None) = Inr a'"
      "length a' = ?n"
    by auto
  then have "store a' (int ?n) None = Inl (OUT_OF_BOUNDS (int ?n))"
    by (simp add: store_def)
  with a' s show ?thesis
    by (simp add: read_command_line_def Let_def)
qed

text \<open>
  Claim C3 fails on the code. With 128 bytes at \<^verbatim>\<open>LOADER_ARGS\<close>, \<^verbatim>\<open>argv\<close> has 65 slots.
  A count of 65 over 128 zero bytes is 65 empty arguments, which fit the range: the panic
  does not fire, and \<^verbatim>\<open>argv[argc] = NULL\<close> writes the slot 65, past the array; with a
  count of 66 the loop itself writes that slot. A count of 1 over 128 bytes without a zero
  byte passes the loop without a panic, and printing the argument reads past the range. A
  count with the top bit set is a negative \<^verbatim>\<open>argc\<close>, and the null pointer is stored
  before the array.
\<close>

theorem read_command_line_overruns:
  "length (replicate (128 div 2 + 1) (None :: nat option)) = 65 \<and>
   read_command_line 65 (replicate 128 NUL) = Inl (OUT_OF_BOUNDS 65) \<and>
   read_command_line 66 (replicate 128 NUL) = Inl (OUT_OF_BOUNDS 65) \<and>
   read_command_line 1 (replicate 128 (CHR ''a'')) = Inl READ_PAST_END \<and>
   read_command_line (- 1) (replicate 128 NUL) = Inl (OUT_OF_BOUNDS (- 1))"
  by code_simp

subsection \<open>The action loop\<close>

lemma find_action_Inr: "find_action tbl tok = Inr a \<Longrightarrow> a \<in> set tbl \<and> name a = Some tok"
  by (induction tbl) (auto split: option.splits if_splits)

lemma find_action_sentinel:
  "find_action tbl tok = Inl h \<Longrightarrow> \<exists>a\<in>set tbl. name a = None \<Longrightarrow> h = PANIC_unknown_action tok"
  by (induction tbl) (auto split: option.splits if_splits)

lemma check_args_Inr:
  "check_args arr argv tok n i = Inr u \<Longrightarrow> i \<le> j \<Longrightarrow> j < n \<Longrightarrow>
   \<exists>s. slot arr (argv + j) = Inr (Some s)"
proof (induction arr argv tok n i rule: check_args.induct)
  case (1 arr argv tok n i)
  from "1.prems" have lt: "i < n" by simp
  from "1.prems"(1) lt obtain s where s: "slot arr (argv + i) = Inr (Some s)"
    by (subst (asm) check_args.simps) (auto split: sum.splits option.splits)
  with "1.prems"(1) lt have rec: "check_args arr argv tok n (i + 1) = Inr u"
    by (subst (asm) check_args.simps) simp
  show ?case
  proof (cases "j = i")
    case True
    with s show ?thesis by simp
  next
    case False
    with "1.prems" have "i + 1 \<le> j" by simp
    from "1.IH"[OF lt s refl rec this "1.prems"(3)] show ?thesis .
  qed
qed

lemma slot_between:
  "slot arr t = Inr x \<Longrightarrow> 0 \<le> c \<Longrightarrow> c \<le> t \<Longrightarrow> \<exists>y. slot arr c = Inr y"
  by (simp add: slot_def split: if_splits)

text \<open>With a null pointer at \<open>t\<close> and strings in the slots \<open>argv .. argv + i - 1\<close>, \<open>t\<close> lies beyond them.\<close>

lemma terminator_beyond:
  assumes t: "slot arr t = Inr None" and le: "argv \<le> t"
    and pre: "\<forall>j. 0 \<le> j \<and> j < i \<longrightarrow> (\<exists>s. slot arr (argv + j) = Inr (Some s))"
  shows "argv + i \<le> t"
proof (rule ccontr)
  assume "\<not> argv + i \<le> t"
  with le have "0 \<le> t - argv \<and> t - argv < i" by simp
  with pre obtain s where "slot arr (argv + (t - argv)) = Inr (Some s)" by blast
  with t show False by simp
qed

lemma check_args_Inl:
  assumes "check_args arr argv tok n i = Inl h"
    and "slot arr t = Inr None" and "argv \<le> t" and "0 \<le> argv" and "0 \<le> i"
    and "\<forall>j. 0 \<le> j \<and> j < i \<longrightarrow> (\<exists>s. slot arr (argv + j) = Inr (Some s))"
  shows "h = PANIC_action_requires tok (n - 1)"
  using assms
proof (induction arr argv tok n i rule: check_args.induct)
  case (1 arr argv tok n i)
  from "1.prems"(1) have lt: "i < n"
    by (subst (asm) check_args.simps) (simp split: if_splits)
  have "argv + i \<le> t"
    using terminator_beyond[OF "1.prems"(2,3,6)] .
  with "1.prems" obtain x where x: "slot arr (argv + i) = Inr x"
    using slot_between[of arr t None "argv + i"] by auto
  show ?case
  proof (cases x)
    case None
    with x lt "1.prems"(1) show ?thesis
      by (subst (asm) check_args.simps) simp
  next
    case (Some s)
    with x lt "1.prems"(1) have rec: "check_args arr argv tok n (i + 1) = Inl h"
      by (subst (asm) check_args.simps) simp
    have pre: "\<forall>j. 0 \<le> j \<and> j < i + 1 \<longrightarrow> (\<exists>s. slot arr (argv + j) = Inr (Some s))"
    proof (intro allI impI)
      fix j assume j: "0 \<le> j \<and> j < i + 1"
      show "\<exists>s. slot arr (argv + j) = Inr (Some s)"
      proof (cases "j = i")
        case True with x Some show ?thesis by simp
      next
        case False
        with j have "0 \<le> j \<and> j < i" by simp
        with "1.prems"(6) show ?thesis by blast
      qed
    qed
    from "1.prems"(5) have "0 \<le> i + 1" by simp
    from "1.IH"[OF lt x[unfolded Some] refl rec "1.prems"(2,3,4) this pre] show ?thesis .
  qed
qed

lemma actions_table_ok: "table_ok (actions b)"
  by (auto simp: table_ok_def actions_def)

lemma invoke_Inr:
  assumes "f \<noteq> None" and "f = Some run_task_fn \<longrightarrow> (\<exists>s. slot arr (argv + 1) = Inr s)"
  shows "\<exists>evs. invoke b g f arr argv = Inr evs"
  using assms by (cases f; cases "the f") (auto simp: invoke_def run_task_def)

text \<open>
  The loop ends on every array with a null pointer at or after the cursor: the measure is
  the distance to that null pointer, which the checked arguments never step over.
\<close>

lemma run_actions_loop_ends:
  assumes ok: "table_ok tbl"
    and t: "slot arr t = Inr None" and le: "argv \<le> t" and nn: "0 \<le> argv"
  shows "\<exists>h c tr'. run_actions_loop b g tbl arr argv tr = Some (h, c, tr') \<and>
           (case h of None \<Rightarrow> slot arr c = Inr None
            | Some e \<Rightarrow> (\<exists>tok. e = PANIC_unknown_action tok) \<or>
                        (\<exists>tok n. e = PANIC_action_requires tok n))"
  using le nn
proof (induction "nat (t - argv)" arbitrary: argv tr rule: less_induct)
  case less
  from slot_between[OF t less.prems(2,1)] obtain x where x: "slot arr argv = Inr x" ..
  show ?case
  proof (cases x)
    case None
    with x show ?thesis by (subst run_actions_loop.simps) simp
  next
    case (Some tok)
    note tok = x[unfolded Some]
    show ?thesis
    proof (cases "find_action tbl tok")
      case (Inl h)
      with ok have "h = PANIC_unknown_action tok"
        by (auto simp: table_ok_def dest: find_action_sentinel)
      with tok Inl show ?thesis by (subst run_actions_loop.simps) simp
    next
      case (Inr a)
      then have a: "a \<in> set tbl" "name a = Some tok" by (auto dest: find_action_Inr)
      with ok have argc1: "1 \<le> argc a" and f: "func a \<noteq> None"
        and rt: "func a = Some run_task_fn \<longrightarrow> 2 \<le> argc a"
        by (auto simp: table_ok_def)
      have pre1: "\<forall>j. 0 \<le> j \<and> j < 1 \<longrightarrow> (\<exists>s. slot arr (argv + j) = Inr (Some s))"
      proof (intro allI impI)
        fix j :: int assume "0 \<le> j \<and> j < 1"
        then have "j = 0" by simp
        with tok show "\<exists>s. slot arr (argv + j) = Inr (Some s)" by simp
      qed
      show ?thesis
      proof (cases "check_args arr argv tok (argc a) 1")
        case (Inl h)
        from check_args_Inl[OF Inl t less.prems(1,2) _ pre1]
        have "h = PANIC_action_requires tok (argc a - 1)" by simp
        with tok Inr Inl show ?thesis by (subst run_actions_loop.simps) simp
      next
        case chk: (Inr u)
        have args: "\<forall>j. 0 \<le> j \<and> j < argc a \<longrightarrow> (\<exists>s. slot arr (argv + j) = Inr (Some s))"
        proof (intro allI impI)
          fix j assume j: "0 \<le> j \<and> j < argc a"
          show "\<exists>s. slot arr (argv + j) = Inr (Some s)"
          proof (cases "j = 0")
            case True with tok show ?thesis by simp
          next
            case False
            with j have "1 \<le> j" "j < argc a" by simp_all
            from check_args_Inr[OF chk this] show ?thesis .
          qed
        qed
        have next_le: "argv + argc a \<le> t"
          using terminator_beyond[OF t less.prems(1) args] .
        have "func a = Some run_task_fn \<longrightarrow> (\<exists>s. slot arr (argv + 1) = Inr s)"
        proof
          assume "func a = Some run_task_fn"
          with rt have "0 \<le> (1::int) \<and> 1 < argc a" by simp
          with args show "\<exists>s. slot arr (argv + 1) = Inr s" by blast
        qed
        from invoke_Inr[OF f this] obtain evs where evs: "invoke b g (func a) arr argv = Inr evs" ..
        have step: "run_actions_loop b g tbl arr argv tr =
                    run_actions_loop b g tbl arr (argv + argc a) (tr @ evs)"
          using tok Inr chk evs by (subst run_actions_loop.simps) simp
        have "nat (t - (argv + argc a)) < nat (t - argv)"
          using argc1 next_le by simp
        moreover have "0 \<le> argv + argc a" using argc1 less.prems(2) by simp
        ultimately show ?thesis
          using less.hyps[of "argv + argc a" "tr @ evs"] next_le step by simp
      qed
    qed
  qed
qed

text \<open>
  Claim C4, as amended. With the file system configured in, \<^verbatim>\<open>run_actions\<close> on the array
  \<open>["cat", NULL]\<close> stops with the panic for missing arguments; the panic names \<open>cat\<close> and
  the count it prints is 1, the declared count 2 less the action's own name
  (\<^verbatim>\<open>a->argc - 1\<close>). No handler has been called.
\<close>

theorem run_actions_cat_requires_one:
  "FILESYS b \<Longrightarrow>
   run_actions b g [Some ''cat'', None] 0 = Some (Some (PANIC_action_requires ''cat'' 1), 0, [])"
  by (simp add: run_actions_def run_actions_loop.simps actions_def slot_def)

theorem run_actions_cat_requires_one_witness:
  "FILESYS \<lparr>USERPROG = True, FILESYS = True, VM = False\<rparr> \<and>
   run_actions \<lparr>USERPROG = True, FILESYS = True, VM = False\<rparr> boot_globals [Some ''cat'', None] 0
     = Some (Some (PANIC_action_requires ''cat'' 1), 0, [])"
  using run_actions_cat_requires_one
          [of "\<lparr>USERPROG = True, FILESYS = True, VM = False\<rparr>" boot_globals]
  by simp

text \<open>
  Claim C4, as stated, fails: on \<open>["cat", NULL]\<close> with the file system configured in, the
  count in the panic is 1 and not 2.
\<close>

theorem run_actions_cat_count_counterexample:
  "run_actions \<lparr>USERPROG = False, FILESYS = True, VM = False\<rparr> boot_globals [Some ''cat'', None] 0
     = Some (Some (PANIC_action_requires ''cat'' 1), 0, []) \<and>
   run_actions \<lparr>USERPROG = False, FILESYS = True, VM = False\<rparr> boot_globals [Some ''cat'', None] 0
     \<noteq> Some (Some (PANIC_action_requires ''cat'' 2), 0, [])"
  by (simp add: run_actions_def run_actions_loop.simps actions_def slot_def)

text \<open>
  Claim C5. With the file system configured in, \<^verbatim>\<open>run_actions\<close> on
  \<open>["run", "prog", "ls", NULL]\<close>: the first turn of the loop finds the entry \<open>run\<close>, calls
  \<^verbatim>\<open>run_task\<close> at the cursor 0, which takes \<open>prog\<close> as its task, and goes on at the cursor
  2; the second turn calls \<^verbatim>\<open>fsutil_ls\<close> on the slice \<open>["ls", NULL]\<close>, which holds no
  argument, and goes on at the cursor 3; there the null pointer ends the loop, which
  returns without a halt.
\<close>

theorem run_actions_run_prog_ls:
  "FILESYS b \<Longrightarrow>
   (let arr = [Some ''run'', Some ''prog'', Some ''ls'', None];
        run_evs =
          [Printf ''Executing '%s':\<newline>'' [Some ''prog'']] @
          (if USERPROG b
           then (if thread_tests g then [Run_test (Some ''prog'')]
                 else [Process_wait_create_initd (Some ''prog'')])
           else [Run_test (Some ''prog'')]) @
          [Printf ''Execution of '%s' complete.\<newline>'' [Some ''prog'']];
        ls_evs = [Fsutil fsutil_ls [Some ''ls'', None]]
    in find_action (actions b) ''run'' = Inr \<lparr>name = Some ''run'', argc = 2, func = Some run_task_fn\<rparr>
     \<and> invoke b g (Some run_task_fn) arr 0 = Inr run_evs
     \<and> run_actions_loop b g (actions b) arr 0 [] =
         run_actions_loop b g (actions b) arr (0 + 2) run_evs
     \<and> find_action (actions b) ''ls'' = Inr \<lparr>name = Some ''ls'', argc = 1, func = Some fsutil_ls\<rparr>
     \<and> invoke b g (Some fsutil_ls) arr 2 = Inr ls_evs
     \<and> run_actions_loop b g (actions b) arr 2 run_evs =
         run_actions_loop b g (actions b) arr (2 + 1) (run_evs @ ls_evs)
     \<and> slot arr 3 = Inr None
     \<and> run_actions_loop b g (actions b) arr 3 (run_evs @ ls_evs) = Some (None, 3, run_evs @ ls_evs)
     \<and> run_actions b g arr 0 = Some (None, 3, run_evs @ ls_evs))"
proof -
  assume fs: "FILESYS b"
  define arr where "arr = [Some ''run'', Some ''prog'', Some ''ls'', None]"
  define run_evs where "run_evs =
          [Printf ''Executing '%s':\<newline>'' [Some ''prog'']] @
          (if USERPROG b
           then (if thread_tests g then [Run_test (Some ''prog'')]
                 else [Process_wait_create_initd (Some ''prog'')])
           else [Run_test (Some ''prog'')]) @
          [Printf ''Execution of '%s' complete.\<newline>'' [Some ''prog'']]"
  define ls_evs where "ls_evs = [Fsutil fsutil_ls [Some ''ls'', None]]"
  have 1: "find_action (actions b) ''run'' = Inr \<lparr>name = Some ''run'', argc = 2, func = Some run_task_fn\<rparr>"
    by (simp add: actions_def)
  have 2: "invoke b g (Some run_task_fn) arr 0 = Inr run_evs"
    by (simp add: invoke_def run_task_def slot_def arr_def run_evs_def)
  have 3: "run_actions_loop b g (actions b) arr 0 tr =
           run_actions_loop b g (actions b) arr (0 + 2) (tr @ run_evs)" for tr
    using fs unfolding arr_def run_evs_def
    by (subst run_actions_loop.simps) (simp add: actions_def slot_def invoke_def run_task_def)
  have 4: "find_action (actions b) ''ls'' = Inr \<lparr>name = Some ''ls'', argc = 1, func = Some fsutil_ls\<rparr>"
    using fs by (simp add: actions_def)
  have 5: "invoke b g (Some fsutil_ls) arr 2 = Inr ls_evs"
    by (simp add: invoke_def slice_def arr_def ls_evs_def)
  have 6: "run_actions_loop b g (actions b) arr 2 tr =
           run_actions_loop b g (actions b) arr (2 + 1) (tr @ ls_evs)" for tr
    using fs unfolding arr_def ls_evs_def
    by (subst run_actions_loop.simps) (simp add: actions_def slot_def invoke_def slice_def)
  have 7: "slot arr 3 = Inr None"
    by (simp add: slot_def arr_def)
  have 8: "run_actions_loop b g (actions b) arr 3 tr = Some (None, 3, tr)" for tr
    using 7 by (subst run_actions_loop.simps) simp
  have 9: "run_actions b g arr 0 = Some (None, 3, run_evs @ ls_evs)"
    using 3[of "[]"] 6[of "run_evs"] 8[of "run_evs @ ls_evs"]
    by (simp add: run_actions_def)
  from 1 2 3[of "[]"] 4 5 6[of run_evs] 7 8[of "run_evs @ ls_evs"] 9
  show ?thesis
    unfolding Let_def arr_def[symmetric] run_evs_def[symmetric] ls_evs_def[symmetric]
    by simp
qed

theorem run_actions_run_prog_ls_witness:
  "FILESYS \<lparr>USERPROG = False, FILESYS = True, VM = False\<rparr> \<and>
   run_actions \<lparr>USERPROG = False, FILESYS = True, VM = False\<rparr> boot_globals
       [Some ''run'', Some ''prog'', Some ''ls'', None] 0
     = Some (None, 3,
         [Printf ''Executing '%s':\<newline>'' [Some ''prog''], Run_test (Some ''prog''),
          Printf ''Execution of '%s' complete.\<newline>'' [Some ''prog''],
          Fsutil fsutil_ls [Some ''ls'', None]])"
  using run_actions_run_prog_ls
          [of "\<lparr>USERPROG = False, FILESYS = True, VM = False\<rparr>" boot_globals]
  by (simp add: Let_def)

text \<open>
  Claim C10. Every named entry of the table of actions declares a count of at least 1, and
  a turn of the loop that calls a handler goes on at the cursor moved by that count. So on
  every array with a null pointer at or after the cursor the loop of \<^verbatim>\<open>run_actions\<close>
  ends: it returns at a null pointer, or it stops with the panic for an unknown action or
  for missing arguments. On an array in which each action is in the table and has its
  arguments neither panic can occur, so the loop returns.
\<close>

theorem run_actions_terminates:
  assumes "0 \<le> argv" and "None \<in> set (slice arr argv)"
  shows "(\<forall>a\<in>set (actions b). name a \<noteq> None \<longrightarrow> 1 \<le> argc a) \<and>
         (\<forall>tok a evs. slot arr argv = Inr (Some tok) \<and> find_action (actions b) tok = Inr a \<and>
              check_args arr argv tok (argc a) 1 = Inr () \<and> invoke b g (func a) arr argv = Inr evs \<longrightarrow>
            run_actions_loop b g (actions b) arr argv tr =
            run_actions_loop b g (actions b) arr (argv + argc a) (tr @ evs)) \<and>
         (\<exists>h c tr'. run_actions_loop b g (actions b) arr argv tr = Some (h, c, tr') \<and>
           (case h of None \<Rightarrow> slot arr c = Inr None
            | Some e \<Rightarrow> (\<exists>tok. e = PANIC_unknown_action tok) \<or>
                        (\<exists>tok n. e = PANIC_action_requires tok n)))"
proof (intro conjI)
  show "\<forall>a\<in>set (actions b). name a \<noteq> None \<longrightarrow> 1 \<le> argc a"
    using actions_table_ok[of b] by (simp add: table_ok_def)
next
  show "\<forall>tok a evs. slot arr argv = Inr (Some tok) \<and> find_action (actions b) tok = Inr a \<and>
              check_args arr argv tok (argc a) 1 = Inr () \<and> invoke b g (func a) arr argv = Inr evs \<longrightarrow>
            run_actions_loop b g (actions b) arr argv tr =
            run_actions_loop b g (actions b) arr (argv + argc a) (tr @ evs)"
    by (intro allI impI, subst run_actions_loop.simps) simp
next
  from assms(2) obtain k where k: "k < length (drop (nat argv) arr)" "drop (nat argv) arr ! k = None"
    by (auto simp: slice_def in_set_conv_nth)
  then have "slot arr (argv + int k) = Inr None" using assms(1)
    by (simp add: slot_def nat_add_distrib)
  from run_actions_loop_ends[OF actions_table_ok this _ assms(1)]
  show "\<exists>h c tr'. run_actions_loop b g (actions b) arr argv tr = Some (h, c, tr') \<and>
           (case h of None \<Rightarrow> slot arr c = Inr None
            | Some e \<Rightarrow> (\<exists>tok. e = PANIC_unknown_action tok) \<or>
                        (\<exists>tok n. e = PANIC_action_requires tok n))" by simp
qed

theorem run_actions_terminates_witness:
  "(0::int) \<le> 0 \<and> None \<in> set (slice [Some ''run'', Some ''t'', Some ''rm'', Some ''f'', None] 0) \<and>
   (\<exists>h c tr'. run_actions_loop \<lparr>USERPROG = True, FILESYS = True, VM = True\<rparr> boot_globals
                 (actions \<lparr>USERPROG = True, FILESYS = True, VM = True\<rparr>)
                 [Some ''run'', Some ''t'', Some ''rm'', Some ''f'', None] 0 [] = Some (h, c, tr'))"
  using run_actions_terminates
          [of 0 "[Some ''run'', Some ''t'', Some ''rm'', Some ''f'', None]"
              "\<lparr>USERPROG = True, FILESYS = True, VM = True\<rparr>" boot_globals "[]"]
  by (simp add: slice_def) blast

subsection \<open>Option parsing\<close>

lemma atoi_77: "atoi (Some ''77'') = Inr 77"
  by (simp add: atoi_def isspace_def isdigit_def)

lemma parse_option_rs_77: "parse_option b g ''-rs=77'' = Inr (g\<lparr>random_seed := Some 77\<rparr>, ''-rs'')"
  by (simp add: parse_option_def strtok_r_def atoi_77 Let_def)

lemma parse_option_mlfqs: "parse_option b g ''-mlfqs'' = Inr (g\<lparr>thread_mlfqs := True\<rparr>, ''-mlfqs'')"
  by (simp add: parse_option_def strtok_r_def Let_def)

text \<open>On a token that starts with \<open>-\<close> the name is the text before the first \<open>=\<close>.\<close>

lemma strtok_r_name:
  assumes "take 1 tok = ''-''"
  shows "strtok_r tok ''='' =
           (Some (takeWhile (\<lambda>c. c \<noteq> CHR ''='') tok),
            tl (dropWhile (\<lambda>c. c \<noteq> CHR ''='') tok),
            takeWhile (\<lambda>c. c \<noteq> CHR ''='') tok)"
proof -
  from assms obtain cs where tok: "tok = CHR ''-'' # cs" by (cases tok) auto
  have lead: "takeWhile (\<lambda>c. c \<in> set ''='') tok = []" "dropWhile (\<lambda>c. c \<in> set ''='') tok = tok"
    by (simp_all add: tok)
  have ne: "tok \<noteq> []" by (simp add: tok)
  have p: "(\<lambda>c. c \<notin> set ''='') = (\<lambda>c. c \<noteq> CHR ''='')" by auto
  show ?thesis
  proof (cases "dropWhile (\<lambda>c. c \<noteq> CHR ''='') tok = []")
    case True
    then have "takeWhile (\<lambda>c. c \<noteq> CHR ''='') tok = tok"
      by (metis takeWhile_dropWhile_id append_Nil2)
    note tw = this
    from ne show ?thesis
      unfolding strtok_r_def Let_def lead p tw True by simp
  next
    case False
    with ne show ?thesis
      unfolding strtok_r_def Let_def lead p by auto
  qed
qed

lemma strtok_r_empty: "strtok_r [] [] = (None, [], [])"
  by (simp add: strtok_r_def)

text \<open>
  Claim C6. \<^verbatim>\<open>parse_options\<close> on \<open>["-rs=77", "-mlfqs", "run", "t", NULL]\<close>, in every
  build and from any globals: \<^verbatim>\<open>random_init\<close> is called with 77, \<^verbatim>\<open>thread_mlfqs\<close> is set,
  nothing else changes, and the pointer returned is the cursor 2, where the slice
  \<open>["run", "t", NULL]\<close> starts.
\<close>

theorem parse_options_rs_mlfqs_run:
  "parse_options b g [Some ''-rs=77'', Some ''-mlfqs'', Some ''run'', Some ''t'', None] 0
     = Inr (g\<lparr>random_seed := Some 77, thread_mlfqs := True\<rparr>,
            [Some ''-rs'', Some ''-mlfqs'', Some ''run'', Some ''t'', None], 2) \<and>
   slice [Some ''-rs'', Some ''-mlfqs'', Some ''run'', Some ''t'', None] 2
     = [Some ''run'', Some ''t'', None]"
  by (simp add: parse_options.simps[of _ _ "_ # _"] slot_def slice_def
        parse_option_rs_77 parse_option_mlfqs)

theorem parse_options_rs_mlfqs_run_witness:
  "parse_options \<lparr>USERPROG = True, FILESYS = True, VM = True\<rparr> boot_globals
       [Some ''-rs=77'', Some ''-mlfqs'', Some ''run'', Some ''t'', None] 0
     = Inr (\<lparr>format_filesys = False, power_off_when_done = False, thread_tests = False,
             thread_mlfqs = True, user_page_limit = 0, random_seed = Some 77\<rparr>,
            [Some ''-rs'', Some ''-mlfqs'', Some ''run'', Some ''t'', None], 2)"
  using parse_options_rs_mlfqs_run [of "\<lparr>USERPROG = True, FILESYS = True, VM = True\<rparr>" boot_globals]
  by (simp add: boot_globals_def)

text \<open>
  Claim C7. When the loop of \<^verbatim>\<open>parse_options\<close> stands at a token that starts with \<open>-\<close>
  and whose name, the text before its first \<open>=\<close>, is none of the options of the build,
  it stops with the panic for an unknown option, which carries that name. On
  \<open>["-bogus", NULL]\<close> the panic names \<open>-bogus\<close>.
\<close>

theorem parse_options_unknown_option:
  assumes "slot arr argv = Inr (Some tok)" and "take 1 tok = ''-''"
    and "takeWhile (\<lambda>c. c \<noteq> CHR ''='') tok \<notin> set (option_names b)"
  shows "parse_options b g arr argv
           = Inl (PANIC_unknown_option (takeWhile (\<lambda>c. c \<noteq> CHR ''='') tok)) \<and>
         parse_options b g [Some ''-bogus'', None] 0 = Inl (PANIC_unknown_option ''-bogus'')"
proof -
  have unknown: "parse_option b g t = Inl (PANIC_unknown_option (takeWhile (\<lambda>c. c \<noteq> CHR ''='') t))"
    if "take 1 t = ''-''" and "takeWhile (\<lambda>c. c \<noteq> CHR ''='') t \<notin> set (option_names b)" for t
    using that(2)
    by (auto simp: parse_option_def strtok_r_name[OF that(1)] option_names_def split: prod.splits)
  from unknown[OF assms(2,3)] assms(1,2)
  have 1: "parse_options b g arr argv
             = Inl (PANIC_unknown_option (takeWhile (\<lambda>c. c \<noteq> CHR ''='') tok))"
    by (subst parse_options.simps) simp
  have "parse_option b g ''-bogus'' = Inl (PANIC_unknown_option ''-bogus'')"
    using unknown[of "''-bogus''"] by (simp add: option_names_def)
  then have 2: "parse_options b g [Some ''-bogus'', None] 0 = Inl (PANIC_unknown_option ''-bogus'')"
    by (subst parse_options.simps) (simp add: slot_def)
  from 1 2 show ?thesis ..
qed

theorem parse_options_unknown_option_witness:
  "slot [Some ''-q'', Some ''-f=x'', None] 1 = Inr (Some ''-f=x'') \<and> take 1 ''-f=x'' = ''-'' \<and>
   takeWhile (\<lambda>c. c \<noteq> CHR ''='') ''-f=x'' \<notin> set (option_names \<lparr>USERPROG = True, FILESYS = False, VM = False\<rparr>) \<and>
   parse_options \<lparr>USERPROG = True, FILESYS = False, VM = False\<rparr> boot_globals
       [Some ''-q'', Some ''-f=x'', None] 1 = Inl (PANIC_unknown_option ''-f'')"
  using parse_options_unknown_option
          [of "[Some ''-q'', Some ''-f=x'', None]" 1 "''-f=x''"
              "\<lparr>USERPROG = True, FILESYS = False, VM = False\<rparr>" boot_globals]
  by (simp add: slot_def option_names_def)

text \<open>
  Claim C9. When the loop of \<^verbatim>\<open>parse_options\<close> stands at a token without \<open>=\<close> that is an
  option of the build with an integer value (\<open>-rs\<close>, and \<open>-ul\<close> with \<^verbatim>\<open>USERPROG\<close>), the
  second call of \<^verbatim>\<open>strtok_r\<close> finds no value, \<^verbatim>\<open>atoi\<close> is called on the null pointer, and
  the result is the halt of that call: neither a zero nor a panic of \<^verbatim>\<open>parse_options\<close>.
\<close>

theorem parse_options_integer_option_without_value:
  assumes "slot arr argv = Inr (Some tok)" and "CHR ''='' \<notin> set tok"
    and "tok \<in> set (integer_options b)"
  shows "fst (strtok_r (fst (snd (strtok_r tok ''=''))) []) = None \<and>
         atoi None = Inl ATOI_NULL \<and>
         parse_options b g arr argv = Inl ATOI_NULL"
proof -
  from assms(3) have dash: "take 1 tok = ''-''"
    by (auto simp: integer_options_def split: if_splits)
  from assms(2) have tw: "takeWhile (\<lambda>c. c \<noteq> CHR ''='') tok = tok"
      "dropWhile (\<lambda>c. c \<noteq> CHR ''='') tok = []"
    by (auto simp: takeWhile_eq_all_conv)
  have st: "strtok_r tok ''='' = (Some tok, [], tok)"
    by (simp add: strtok_r_name[OF dash] tw)
  have "parse_option b g tok = Inl ATOI_NULL"
    using assms(3)
    by (auto simp: parse_option_def st strtok_r_empty integer_options_def atoi_def split: if_splits)
  with assms(1) dash st show ?thesis
    by (subst parse_options.simps) (simp add: strtok_r_empty atoi_def)
qed

theorem parse_options_integer_option_without_value_witness:
  "slot [Some ''-rs'', None] 0 = Inr (Some ''-rs'') \<and> CHR ''='' \<notin> set ''-rs'' \<and>
   ''-rs'' \<in> set (integer_options \<lparr>USERPROG = False, FILESYS = False, VM = False\<rparr>) \<and>
   parse_options \<lparr>USERPROG = False, FILESYS = False, VM = False\<rparr> boot_globals [Some ''-rs'', None] 0
     = Inl ATOI_NULL"
  using parse_options_integer_option_without_value
          [of "[Some ''-rs'', None]" 0 "''-rs''"
              "\<lparr>USERPROG = False, FILESYS = False, VM = False\<rparr>" boot_globals]
  by (simp add: slot_def integer_options_def)

subsection \<open>The order of initialization in main\<close>

lemma map_filter_append: "List.map_filter f (xs @ ys) = List.map_filter f xs @ List.map_filter f ys"
  by (simp add: List.map_filter_def)

lemma no_init_map_filter: "no_init evs \<Longrightarrow> List.map_filter init_name evs = []"
  by (induction evs) (simp_all add: no_init_def List.map_filter_simps)

lemma no_init_append [simp]: "no_init (xs @ ys) \<longleftrightarrow> no_init xs \<and> no_init ys"
  by (auto simp: no_init_def)

lemma no_init_Nil [simp]: "no_init []"
  by (simp add: no_init_def)

lemma echo_no_init: "echo mem argv n i = Inr evs \<Longrightarrow> no_init evs"
proof (induction mem argv n i arbitrary: evs rule: echo.induct)
  case (1 mem argv n i)
  show ?case
  proof (cases "i < n")
    case False
    with "1.prems" show ?thesis by (subst (asm) echo.simps) simp
  next
    case True
    with "1.prems" obtain p s evs' where p: "slot argv i = Inr (Some p)" and s: "cstring mem p = Inr s"
      and r: "echo mem argv n (i + 1) = Inr evs'"
      and e: "evs = (if CHR '' '' \<in> set s then Printf ('' '%s'' @ [CHR 0x27]) [Some s]
                                else Printf '' %s'' [Some s]) # evs'"
      by (subst (asm) echo.simps) (auto split: sum.splits option.splits)
    from "1.IH"[OF True p refl s r] have "no_init evs'" .
    with e show ?thesis by (simp add: no_init_def)
  qed
qed

lemma read_command_line_no_init: "read_command_line cnt mem = Inr (argv, out) \<Longrightarrow> no_init out"
  by (auto simp: read_command_line_def Let_def no_init_def split: sum.splits dest!: echo_no_init)

lemma invoke_no_init: "invoke b g f arr argv = Inr evs \<Longrightarrow> no_init evs"
  by (auto simp: invoke_def run_task_def no_init_def split: option.splits handler.splits sum.splits if_splits)

lemma run_actions_loop_no_init:
  assumes "run_actions_loop b g tbl arr argv tr = Some r"
  shows "no_init tr \<longrightarrow> no_init (snd (snd r))"
proof (rule run_actions_loop.raw_induct
    [where P = "\<lambda>b g tbl arr argv tr r. no_init tr \<longrightarrow> no_init (snd (snd r))", OF _ assms], goal_cases)
  case (1 loop b g tbl arr argv tr r)
  note IH = "1"(1) and body = "1"(2)
  show ?case
  proof
    assume tr: "no_init tr"
    show "no_init (snd (snd r))"
    proof (cases "slot arr argv")
      case (Inl x) with body tr show ?thesis by auto
    next
      case (Inr t)
      show ?thesis
      proof (cases t)
        case None with Inr body tr show ?thesis by auto
      next
        case (Some tok)
        show ?thesis
        proof (cases "find_action tbl tok")
          case (Inl x) with Inr Some body tr show ?thesis by auto
        next
          case fa: (Inr a)
          show ?thesis
          proof (cases "check_args arr argv tok (argc a) 1")
            case (Inl x) with Inr Some fa body tr show ?thesis by auto
          next
            case ca: (Inr u)
            show ?thesis
            proof (cases "invoke b g (func a) arr argv")
              case (Inl x) with Inr Some fa ca body tr show ?thesis by auto
            next
              case iv: (Inr evs)
              with Inr Some fa ca body have "loop b g tbl arr (argv + argc a) (tr @ evs) = Some r"
                by simp
              from IH[OF this] tr invoke_no_init[OF iv] show ?thesis by simp
            qed
          qed
        qed
      qed
    qed
  qed
qed

lemma run_actions_no_init: "run_actions b g arr argv = Some (h, c, evs) \<Longrightarrow> no_init evs"
  using run_actions_loop_no_init[of b g "actions b" arr argv "[]" "(h, c, evs)"]
  by (simp add: run_actions_def)

lemma inits_in_order:
  "List.map_filter init_name (init_threads_and_memory @ init_interrupts_and_devices b g) = init_order b"
  by (simp add: init_threads_and_memory_def init_interrupts_and_devices_def init_order_def
        List.map_filter_simps map_filter_append)

lemma inits_no_run_actions:
  "Call ''run_actions'' \<notin> set (init_threads_and_memory @ init_interrupts_and_devices b g)"
  by (simp add: init_threads_and_memory_def init_interrupts_and_devices_def)

lemma memory_inits_prefix:
  "List.map_filter init_name init_threads_and_memory = take 5 (init_order b)"
  by (simp add: init_threads_and_memory_def init_order_def List.map_filter_simps)

lemma power_off_no_init: "no_init (power_off b)"
  by (auto simp: power_off_def print_stats_def no_init_def init_order_def)


lemma main_cases:
  assumes "main b m = Some (tr, h)"
  shows "no_init tr \<or>
         (\<exists>pre. no_init pre \<and> tr = pre @ init_threads_and_memory) \<or>
         (\<exists>pre g post. no_init pre \<and> no_init post \<and>
            tr = pre @ init_threads_and_memory @ init_interrupts_and_devices b g @
                 Call ''run_actions'' # post)"
proof (cases "read_command_line (boot_arg_cnt m) (boot_args m)")
  case (Inl x)
  with assms have "tr = [Call ''bss_init'', Call ''read_command_line'']" by (simp add: main_def)
  then have "no_init tr" by (simp add: no_init_def init_order_def)
  then show ?thesis by blast
next
  case (Inr r)
  obtain argv out where r: "r = (argv, out)" by (cases r)
  from Inr r have out: "no_init out" by (auto dest: read_command_line_no_init)
  let ?pre = "[Call ''bss_init'', Call ''read_command_line''] @ out @ [Call ''parse_options'']"
  have pre: "no_init ?pre" using out by (simp add: no_init_def init_order_def)
  show ?thesis
  proof (cases "parse_options b
                  ((boot_externals m)\<lparr>format_filesys := False, power_off_when_done := False,
                                       thread_tests := False\<rparr>)
                  (argv_strings (boot_args m) argv) 0")
    case (Inl x)
    with assms Inr r have "tr = ?pre @ parse_options_halt b x" by (auto simp: main_def)
    moreover have "no_init (parse_options_halt b x)"
      using power_off_no_init[of b]
      by (auto simp: parse_options_halt_def usage_def no_init_def init_order_def)
    with pre have "no_init (?pre @ parse_options_halt b x)" by (simp only: no_init_append)
    ultimately show ?thesis by blast
  next
    case po: (Inr p)
    obtain g arr argv' where p: "p = (g, arr, argv')" by (cases p)
    show ?thesis
    proof (cases "paging_init (boot_layout m) (boot_free_pages m) (boot_mem_end m)")
      case None
      with assms Inr r po p show ?thesis by (simp add: main_def)
    next
      case (Some pr)
      show ?thesis
      proof (cases pr)
        case (Inl x)
        with assms Inr r po p Some have "tr = ?pre @ init_threads_and_memory" by (simp add: main_def)
        with pre show ?thesis by blast
      next
        case pg: (Inr pml4)
        show ?thesis
        proof (cases "run_actions b g arr argv'")
          case None
          with assms Inr r po p Some pg show ?thesis by (simp add: main_def)
        next
          case ra: (Some q)
          obtain halted cur evs where q: "q = (halted, cur, evs)" by (cases q)
          from ra q have evs: "no_init evs" by (auto dest: run_actions_no_init)
          have "\<exists>post. no_init post \<and>
                  tr = ?pre @ init_threads_and_memory @ init_interrupts_and_devices b g @
                       Call ''run_actions'' # post"
          proof (cases halted)
            case (Some h')
            with assms Inr r po p \<open>paging_init _ _ _ = Some pr\<close> pg ra q
            have "tr = ?pre @ init_threads_and_memory @ init_interrupts_and_devices b g @
                       Call ''run_actions'' # evs"
              by (simp add: main_def)
            with evs show ?thesis by blast
          next
            case None
            show ?thesis
            proof (cases "power_off_when_done g")
              case True
              with None assms Inr r po p \<open>paging_init _ _ _ = Some pr\<close> pg ra q
              have "tr = ?pre @ init_threads_and_memory @ init_interrupts_and_devices b g @
                       Call ''run_actions'' # (evs @ [Call ''power_off''] @ power_off b)"
                by (simp add: main_def)
              moreover have "no_init (evs @ [Call ''power_off''] @ power_off b)"
                using evs power_off_no_init[of b] by (auto simp: no_init_def init_order_def)
              ultimately show ?thesis by blast
            next
              case False
              with None assms Inr r po p \<open>paging_init _ _ _ = Some pr\<close> pg ra q
              have "tr = ?pre @ init_threads_and_memory @ init_interrupts_and_devices b g @
                       Call ''run_actions'' # (evs @ [Call ''thread_exit''])"
                by (simp add: main_def)
              moreover have "no_init (evs @ [Call ''thread_exit''])"
                using evs by (auto simp: no_init_def init_order_def)
              ultimately show ?thesis by blast
            qed
          qed
          with pre show ?thesis by blast
        qed
      qed
    qed
  qed
qed

lemma no_init_not_run_actions: "no_init evs \<Longrightarrow> Call ''run_actions'' \<notin> set evs"
  by (auto simp: no_init_def)

lemma slot_update_other: "t \<noteq> i \<Longrightarrow> 0 \<le> i \<Longrightarrow> slot (arr[nat i := v]) t = slot arr t"
  by (auto simp: slot_def nat_eq_iff)

lemma parse_options_terminator:
  assumes "parse_options b g arr argv = Inr (g', arr', c)"
    and "slot arr t = Inr None" and "argv \<le> t" and "0 \<le> argv"
  shows "slot arr' t = Inr None \<and> 0 \<le> c \<and> c \<le> t"
  using assms
proof (induction b g arr argv rule: parse_options.induct)
  case (1 b g arr argv)
  from slot_between[OF "1.prems"(2,4,3)] obtain x where x: "slot arr argv = Inr x" ..
  show ?case
  proof (cases x)
    case None
    with x "1.prems" show ?thesis by (subst (asm) parse_options.simps) auto
  next
    case (Some tok)
    note tok = x[unfolded Some]
    show ?thesis
    proof (cases "take 1 tok = ''-''")
      case False
      with tok "1.prems" show ?thesis by (subst (asm) parse_options.simps) auto
    next
      case True
      with tok "1.prems"(1) obtain g1 tok' where po: "parse_option b g tok = Inr (g1, tok')"
        and rec: "parse_options b g1 (arr[nat argv := Some tok']) (argv + 1) = Inr (g', arr', c)"
        by (subst (asm) parse_options.simps) (auto split: sum.splits)
      from tok "1.prems"(2) have ne: "t \<noteq> argv" by auto
      with "1.prems"(3) have le: "argv + 1 \<le> t" by simp
      have t': "slot (arr[nat argv := Some tok']) t = Inr None"
        using "1.prems"(2,4) ne by (simp add: slot_update_other)
      from "1.prems"(4) have "0 \<le> argv + 1" by simp
      from "1.IH"[OF tok refl True po refl rec t' le this] show ?thesis .
    qed
  qed
qed

lemma store_slot: "store arr i v = Inr arr' \<Longrightarrow> slot arr' i = Inr v \<and> 0 \<le> i"
  by (auto simp: store_def slot_def split: if_splits)

lemma read_command_line_terminator:
  assumes "read_command_line cnt mem = Inr (argv, out)"
  shows "slot (argv_strings mem argv) (sint cnt) = Inr None \<and> 0 \<le> sint cnt"
proof -
  from assms obtain argv1 where "store argv1 (sint cnt) None = Inr argv"
    by (auto simp: read_command_line_def Let_def split: sum.splits)
  from store_slot[OF this] show ?thesis
    by (auto simp: slot_def argv_strings_def split: if_splits)
qed

lemma run_actions_returns:
  assumes "read_command_line cnt mem = Inr (argv, out)"
    and "parse_options b g0 (argv_strings mem argv) 0 = Inr (g, arr, c)"
  shows "\<exists>r. run_actions b g arr c = Some r"
proof -
  from read_command_line_terminator[OF assms(1)]
  have t: "slot (argv_strings mem argv) (sint cnt) = Inr None" and nn: "0 \<le> sint cnt" by simp_all
  from parse_options_terminator[OF assms(2) t nn]
  have "slot arr (sint cnt) = Inr None" "0 \<le> c" "c \<le> sint cnt" by simp_all
  from run_actions_loop_ends[OF actions_table_ok[of b] this(1,3,2), where b = b and g = g and tr = "[]"]
  show ?thesis by (auto simp: run_actions_def)
qed


lemma full_order:
  assumes "no_init pre" and "no_init post"
    and "tr = pre @ init_threads_and_memory @ init_interrupts_and_devices b g @
              Call ''run_actions'' # post"
  shows "List.map_filter init_name tr = init_order b \<and> Call ''run_actions'' \<in> set tr"
proof -
  have "List.map_filter init_name (pre @ init_threads_and_memory @ init_interrupts_and_devices b g)
          = init_order b"
    using assms(1) inits_in_order[of b g] by (simp add: map_filter_append no_init_map_filter)
  moreover have "List.map_filter init_name (Call ''run_actions'' # post) = []"
    using assms(2) by (simp add: List.map_filter_simps no_init_map_filter init_order_def)
  ultimately have "List.map_filter init_name tr = init_order b"
    unfolding assms(3) by (simp only: map_filter_append append_assoc[symmetric]) simp
  then show ?thesis by (simp add: assms(3))
qed

lemma main_reaches_run_actions:
  assumes rcl: "read_command_line (boot_arg_cnt m) (boot_args m) = Inr (argv, out)"
    and po: "parse_options b
               ((boot_externals m)\<lparr>format_filesys := False, power_off_when_done := False,
                                    thread_tests := False\<rparr>)
               (argv_strings (boot_args m) argv) 0 = Inr (g, arr, c)"
    and pg: "paging_init (boot_layout m) (boot_free_pages m) (boot_mem_end m) = Some (Inr pml4)"
  shows "\<exists>tr h pre post. main b m = Some (tr, h) \<and> no_init pre \<and> no_init post \<and>
           tr = pre @ init_threads_and_memory @ init_interrupts_and_devices b g @
                Call ''run_actions'' # post"
proof -
  from run_actions_returns[OF rcl po] obtain r where ra: "run_actions b g arr c = Some r" ..
  obtain halted cur evs where r: "r = (halted, cur, evs)" by (cases r)
  from ra r have evs: "no_init evs" by (auto dest: run_actions_no_init)
  from rcl have out: "no_init out" by (rule read_command_line_no_init)
  let ?pre = "[Call ''bss_init'', Call ''read_command_line''] @ out @ [Call ''parse_options'']"
  have pre: "no_init ?pre" using out by (simp add: no_init_def init_order_def)
  let ?tr = "\<lambda>post. ?pre @ init_threads_and_memory @ init_interrupts_and_devices b g @
                Call ''run_actions'' # post"
  have "\<exists>h post. main b m = Some (?tr post, h) \<and> no_init post"
  proof (cases halted)
    case (Some h')
    with rcl po pg ra r have "main b m = Some (?tr evs, h')" by (simp add: main_def)
    with evs show ?thesis by blast
  next
    case None
    show ?thesis
    proof (cases "power_off_when_done g")
      case True
      with None rcl po pg ra r
      have "main b m = Some (?tr (evs @ [Call ''power_off''] @ power_off b), POWER_OFF)"
        by (simp add: main_def)
      moreover have "no_init (evs @ [Call ''power_off''] @ power_off b)"
        using evs power_off_no_init[of b] by (auto simp: no_init_def init_order_def)
      ultimately show ?thesis by blast
    next
      case False
      with None rcl po pg ra r
      have "main b m = Some (?tr (evs @ [Call ''thread_exit'']), THREAD_EXIT)"
        by (simp add: main_def)
      moreover have "no_init (evs @ [Call ''thread_exit''])"
        using evs by (auto simp: no_init_def init_order_def)
      ultimately show ?thesis by blast
    qed
  qed
  with pre show ?thesis by blast
qed

text \<open>
  Claim C8. \<^verbatim>\<open>main\<close> calls the subsystem entry points in the order of the spec: thread,
  console, page allocator, allocation arena, address-space builder, then with \<^verbatim>\<open>USERPROG\<close>
  task state and segment descriptors, interrupt table, timer, keyboard, input queue, then
  with \<^verbatim>\<open>USERPROG\<close> exceptions and system calls, scheduler start, serial queue, timer
  calibration, then with \<^verbatim>\<open>FILESYS\<close> disk and file system, then with \<^verbatim>\<open>VM\<close> the
  demand-paging subsystem. In every run the calls of entry points are, in order, an initial
  part of that order, and when \<^verbatim>\<open>main\<close> calls \<^verbatim>\<open>run_actions\<close> the calls before it are the
  whole order, each entry point once, and none is called after it. And \<^verbatim>\<open>main\<close> makes the
  calls: once the command line is read and its options are parsed, with no free page
  \<^verbatim>\<open>main\<close> stops at the assertion of \<^verbatim>\<open>paging_init\<close> after the first five entry points;
  with a free page (and \<open>mem_end\<close> a page below \<open>2^64\<close>) it calls the whole order and then
  \<^verbatim>\<open>run_actions\<close>.
\<close>

theorem main_init_order:
  "(\<forall>tr h. main b m = Some (tr, h) \<longrightarrow>
      (\<exists>k. List.map_filter init_name tr = take k (init_order b)) \<and>
      (Call ''run_actions'' \<in> set tr \<longrightarrow>
         (\<exists>pre post. tr = pre @ Call ''run_actions'' # post \<and>
            Call ''run_actions'' \<notin> set pre \<and>
            List.map_filter init_name pre = init_order b \<and>
            List.map_filter init_name post = []))) \<and>
   (\<forall>argv out g arr c.
      read_command_line (boot_arg_cnt m) (boot_args m) = Inr (argv, out) \<and>
      parse_options b
        ((boot_externals m)\<lparr>format_filesys := False, power_off_when_done := False,
                             thread_tests := False\<rparr>)
        (argv_strings (boot_args m) argv) 0 = Inr (g, arr, c) \<longrightarrow>
      (boot_free_pages m = 0 \<longrightarrow>
         (\<exists>tr. main b m = Some (tr, PALLOC_ASSERT) \<and>
            List.map_filter init_name tr = take 5 (init_order b))) \<and>
      (0 < boot_free_pages m \<and> unat (boot_mem_end m) + unat PGSIZE \<le> 2 ^ 64 \<longrightarrow>
         (\<exists>tr h. main b m = Some (tr, h) \<and> Call ''run_actions'' \<in> set tr \<and>
            List.map_filter init_name tr = init_order b)))"
proof (intro conjI allI impI, goal_cases)
  case (1 tr h)
  from main_cases[OF 1] consider
      (early) "no_init tr"
    | (paging) pre where "no_init pre" "tr = pre @ init_threads_and_memory"
    | (actions) pre g post where "no_init pre" "no_init post"
        "tr = pre @ init_threads_and_memory @ init_interrupts_and_devices b g @
              Call ''run_actions'' # post"
    by blast
  then show ?case
  proof cases
    case early
    then have "List.map_filter init_name tr = take 0 (init_order b)"
      by (simp add: no_init_map_filter)
    then show ?thesis by blast
  next
    case paging
    then have "List.map_filter init_name tr = take 5 (init_order b)"
      by (simp add: map_filter_append no_init_map_filter memory_inits_prefix)
    then show ?thesis by blast
  next
    case actions
    from full_order[OF actions] have "List.map_filter init_name tr = take (length (init_order b)) (init_order b)"
      by simp
    then show ?thesis by blast
  qed
next
  case (2 tr h)
  from main_cases[OF 2(1)] consider
      (early) "no_init tr"
    | (paging) pre where "no_init pre" "tr = pre @ init_threads_and_memory"
    | (actions) pre g post where "no_init pre" "no_init post"
        "tr = pre @ init_threads_and_memory @ init_interrupts_and_devices b g @
              Call ''run_actions'' # post"
    by blast
  then show ?case
  proof cases
    case early
    then have "Call ''run_actions'' \<notin> set tr" by (rule no_init_not_run_actions)
    with 2(2) show ?thesis by simp
  next
    case paging
    then have "Call ''run_actions'' \<notin> set tr"
      by (auto simp: init_threads_and_memory_def dest: no_init_not_run_actions)
    with 2(2) show ?thesis by simp
  next
    case actions
    let ?pre = "pre @ init_threads_and_memory @ init_interrupts_and_devices b g"
    have 1: "List.map_filter init_name ?pre = init_order b"
      using actions(1) inits_in_order[of b g] by (simp add: map_filter_append no_init_map_filter)
    have 2: "List.map_filter init_name post = []" using actions(2) by (rule no_init_map_filter)
    have 3: "Call ''run_actions'' \<notin> set ?pre"
      using actions(1) inits_no_run_actions[of b g] by (auto dest: no_init_not_run_actions)
    have 4: "tr = ?pre @ Call ''run_actions'' # post" using actions(3) by simp
    from 1 2 3 4 show ?thesis by blast
  qed
next
  case (3 argv out g arr c)
  then have rcl: "read_command_line (boot_arg_cnt m) (boot_args m) = Inr (argv, out)"
    and po: "parse_options b
               ((boot_externals m)\<lparr>format_filesys := False, power_off_when_done := False,
                                    thread_tests := False\<rparr>)
               (argv_strings (boot_args m) argv) 0 = Inr (g, arr, c)"
    and z: "boot_free_pages m = 0" by simp_all
  from rcl have out: "no_init out" by (rule read_command_line_no_init)
  let ?pre = "[Call ''bss_init'', Call ''read_command_line''] @ out @ [Call ''parse_options'']"
  have pre: "no_init ?pre" using out by (simp add: no_init_def init_order_def)
  from z have "paging_init (boot_layout m) (boot_free_pages m) (boot_mem_end m) = Some (Inl PALLOC_ASSERT)"
    by (simp add: paging_init_def)
  with rcl po have "main b m = Some (?pre @ init_threads_and_memory, PALLOC_ASSERT)"
    by (simp add: main_def)
  moreover have "List.map_filter init_name (?pre @ init_threads_and_memory) = take 5 (init_order b)"
  proof -
    have "List.map_filter init_name ?pre = []" using pre by (rule no_init_map_filter)
    moreover have "List.map_filter init_name (?pre @ init_threads_and_memory) =
        List.map_filter init_name ?pre @ List.map_filter init_name init_threads_and_memory"
      by (rule map_filter_append)
    ultimately show ?thesis by (simp only: memory_inits_prefix append_Nil)
  qed
  ultimately show ?case by blast
next
  case (4 argv out g arr c)
  then have rcl: "read_command_line (boot_arg_cnt m) (boot_args m) = Inr (argv, out)"
    and po: "parse_options b
               ((boot_externals m)\<lparr>format_filesys := False, power_off_when_done := False,
                                    thread_tests := False\<rparr>)
               (argv_strings (boot_args m) argv) 0 = Inr (g, arr, c)"
    and f: "0 < boot_free_pages m" and e: "unat (boot_mem_end m) + unat PGSIZE \<le> 2 ^ 64"
    by simp_all
  from e have "unat (boot_mem_end m) + 4096 \<le> 2 ^ 64" by (simp add: unat_PGSIZE)
  from paging_loop_returns[OF this] obtain s1 where "paging_loop (boot_layout m) (boot_mem_end m) 0
      \<lparr>free_pages = boot_free_pages m - 1, tables = {}, entries = (\<lambda>_. 0), active = False\<rparr> = Some s1"
    by blast
  with f have pg: "paging_init (boot_layout m) (boot_free_pages m) (boot_mem_end m)
                     = Some (Inr (s1\<lparr>active := True\<rparr>))"
    by (simp add: paging_init_def)
  from main_reaches_run_actions[OF rcl po pg] obtain tr h pre post where
    "main b m = Some (tr, h)" "no_init pre" "no_init post"
    "tr = pre @ init_threads_and_memory @ init_interrupts_and_devices b g @ Call ''run_actions'' # post"
    by blast
  with full_order[OF this(2,3,4)] show ?case by blast
qed


text \<open>
  The witness: the example boot in a build with the file system runs to \<^verbatim>\<open>thread_exit\<close>
  through the whole order; the same boot without a free page stops at the assertion.
\<close>

theorem main_init_order_witness:
  "main \<lparr>USERPROG = False, FILESYS = True, VM = False\<rparr> example_boot
     = Some (example_trace, THREAD_EXIT) \<and>
   Call ''run_actions'' \<in> set example_trace \<and>
   (\<exists>pre post. example_trace = pre @ Call ''run_actions'' # post \<and>
      Call ''run_actions'' \<notin> set pre \<and>
      List.map_filter init_name pre = init_order \<lparr>USERPROG = False, FILESYS = True, VM = False\<rparr> \<and>
      List.map_filter init_name post = []) \<and>
   read_command_line (boot_arg_cnt example_boot) (boot_args example_boot)
     = Inr ([Some 0, None, None],
            [Printf ''Kernel command line:'' [], Printf '' %s'' [Some ''ls''],
             Printf ''\<newline>'' []]) \<and>
   parse_options \<lparr>USERPROG = False, FILESYS = True, VM = False\<rparr>
       ((boot_externals example_boot)\<lparr>format_filesys := False, power_off_when_done := False,
                                          thread_tests := False\<rparr>)
       (argv_strings (boot_args example_boot) [Some 0, None, None]) 0
     = Inr (boot_globals, [Some ''ls'', None, None], 0) \<and>
   0 < boot_free_pages example_boot \<and>
   unat (boot_mem_end example_boot) + unat PGSIZE \<le> 2 ^ 64 \<and>
   List.map_filter init_name example_trace
     = init_order \<lparr>USERPROG = False, FILESYS = True, VM = False\<rparr> \<and>
   boot_free_pages (example_boot\<lparr>boot_free_pages := 0\<rparr>) = 0 \<and>
   (\<exists>tr. main \<lparr>USERPROG = False, FILESYS = True, VM = False\<rparr>
              (example_boot\<lparr>boot_free_pages := 0\<rparr>) = Some (tr, PALLOC_ASSERT) \<and>
      List.map_filter init_name tr
        = take 5 (init_order \<lparr>USERPROG = False, FILESYS = True, VM = False\<rparr>))"
proof -
  let ?b = "\<lparr>USERPROG = False, FILESYS = True, VM = False\<rparr>"
  have run: "main ?b example_boot = Some (example_trace, THREAD_EXIT)"
    by code_simp
  have mem: "Call ''run_actions'' \<in> set example_trace"
    by (simp add: example_trace_def)
  have rcl: "read_command_line (boot_arg_cnt example_boot) (boot_args example_boot)
     = Inr ([Some 0, None, None],
            [Printf ''Kernel command line:'' [], Printf '' %s'' [Some ''ls''],
             Printf ''\<newline>'' []])"
    by code_simp
  have po: "parse_options ?b
       ((boot_externals example_boot)\<lparr>format_filesys := False, power_off_when_done := False,
                                          thread_tests := False\<rparr>)
       (argv_strings (boot_args example_boot) [Some 0, None, None]) 0
     = Inr (boot_globals, [Some ''ls'', None, None], 0)"
    by code_simp
  have f: "0 < boot_free_pages example_boot" by (simp add: example_boot_def)
  have e: "unat (boot_mem_end example_boot) + unat PGSIZE \<le> 2 ^ 64"
    by (simp add: example_boot_def PGSIZE_def)
  have rcl0: "read_command_line (boot_arg_cnt (example_boot\<lparr>boot_free_pages := 0\<rparr>))
                (boot_args (example_boot\<lparr>boot_free_pages := 0\<rparr>))
     = Inr ([Some 0, None, None],
            [Printf ''Kernel command line:'' [], Printf '' %s'' [Some ''ls''],
             Printf ''\<newline>'' []])"
    using rcl by simp
  have po0: "parse_options ?b
       ((boot_externals (example_boot\<lparr>boot_free_pages := 0\<rparr>))
          \<lparr>format_filesys := False, power_off_when_done := False, thread_tests := False\<rparr>)
       (argv_strings (boot_args (example_boot\<lparr>boot_free_pages := 0\<rparr>)) [Some 0, None, None]) 0
     = Inr (boot_globals, [Some ''ls'', None, None], 0)"
    using po by simp
  note A = main_init_order[of ?b example_boot, THEN conjunct1, rule_format, OF run]
  note B = main_init_order[of ?b example_boot, THEN conjunct2, rule_format, OF conjI[OF rcl po]]
  note C = main_init_order[of ?b "example_boot\<lparr>boot_free_pages := 0\<rparr>", THEN conjunct2, rule_format,
      OF conjI[OF rcl0 po0]]
  from A mem have 1: "\<exists>pre post. example_trace = pre @ Call ''run_actions'' # post \<and>
      Call ''run_actions'' \<notin> set pre \<and>
      List.map_filter init_name pre = init_order ?b \<and> List.map_filter init_name post = []"
    by blast
  from B f e run have 2: "List.map_filter init_name example_trace = init_order ?b"
    by auto
  from C have 3: "\<exists>tr. main ?b (example_boot\<lparr>boot_free_pages := 0\<rparr>) = Some (tr, PALLOC_ASSERT) \<and>
      List.map_filter init_name tr = take 5 (init_order ?b)"
    by simp
  from run mem 1 rcl po f e 2 3 show ?thesis by simp
qed

end
